theory Spec2Isabelle
  imports Main "HOL-Library.Sublist"
begin

section \<open>Data model\<close>

text \<open>
  A Go \<open>error\<close> is modelled by the text its \<open>Error()\<close> method returns; a nil error is
  \<open>None\<close>. \<open>fmt.Errorf("prefix: %w", err)\<close> is the prefix followed by the text of \<open>err\<close>.
  A pointer that may be nil is an \<open>option\<close>. A \<open>context.Context\<close> is a value of the type
  parameter \<open>'ctx\<close>. \<open>time.Time\<close> is a natural number.
\<close>

type_synonym error = string
type_synonym time = nat

datatype fault = Panic | NotARun

text \<open>Package \<open>model\<close>: a chat message.\<close>

record Message =
  Role :: string
  Content :: string

text \<open>
  Modelled from the spec: package \<open>status\<close> is not among the sources. The spec names the
  statuses passed, failed and not-evaluated; \<open>EvalStatusUnknown\<close> stands for the zero
  value a freshly built result carries.
\<close>

datatype EvalStatus = EvalStatusUnknown | EvalStatusPassed | EvalStatusFailed | EvalStatusNotEvaluated

text \<open>
  Modelled from the spec: package \<open>evalset\<close> is not among the sources. The evaluation mode
  is a string; the default mode is the empty string, trace mode is \<open>trace\<close>. The fields of
  an invocation, a session input and an eval case are the ones the executor reads.
\<close>

type_synonym EvalMode = string

definition EvalModeDefault :: EvalMode where
  "EvalModeDefault = []"

definition EvalModeTrace :: EvalMode where
  "EvalModeTrace = ''trace''"

record Tool =
  ID :: string
  Name :: string
  Arguments :: string
  Result :: string

record Invocation =
  InvocationID :: string
  ContextMessages :: "Message option list"
  UserContent :: "Message option"
  FinalResponse :: "Message option"
  Tools :: "Tool list"

record SessionInput =
  UserID :: string
  State :: "(string \<times> string) list"

record EvalCase =
  EvalID :: string
  EvalMode :: EvalMode
  ContextMessages :: "Message option list"
  Conversation :: "Invocation option list"
  ActualConversation :: "Invocation option list"
  SessionInput :: "SessionInput option"

record EvalSet =
  EvalCases :: "EvalCase option list"

text \<open>Package \<open>service\<close>: the request and the per-case result.\<close>

record InferenceRequest =
  AppName :: string
  EvalSetID :: string
  EvalCaseIDs :: "string list"

record InferenceResult =
  AppName :: string
  EvalSetID :: string
  EvalCaseID :: string
  EvalMode :: EvalMode
  Inferences :: "Invocation option list option"
  SessionID :: string
  UserID :: string
  Status :: EvalStatus
  ErrorMessage :: string

text \<open>
  Modelled from the spec: package \<open>agent\<close> is not among the sources. A run option is a
  mutator of the run options; \<open>WithInjectedContextMessages\<close> adds its messages after the
  ones already injected (the spec: "global defaults first, then case-specific messages
  appended after them; case messages are additive, not overriding"), and
  \<open>WithRuntimeState\<close> sets the runtime state.
\<close>

record RunOptions =
  InjectedContextMessages :: "Message list"
  RuntimeState :: "(string \<times> string) list option"

type_synonym RunOption = "RunOptions \<Rightarrow> RunOptions"

definition WithInjectedContextMessages :: "Message list \<Rightarrow> RunOption" where
  "WithInjectedContextMessages msgs =
     (\<lambda>ro. ro\<lparr>InjectedContextMessages := InjectedContextMessages ro @ msgs\<rparr>)"


text \<open>The arguments handed to the callbacks (package \<open>service\<close>).\<close>

record BeforeInferenceSetArgs =
  Request :: InferenceRequest

record AfterInferenceSetArgs =
  Request :: InferenceRequest
  Results :: "InferenceResult option list option"
  Error :: "error option"
  StartTime :: time

record BeforeInferenceCaseArgs =
  Request :: InferenceRequest
  EvalCaseID :: string
  SessionID :: string

record AfterInferenceCaseArgs =
  Request :: InferenceRequest
  Result :: InferenceResult
  Error :: "error option"
  StartTime :: time

text \<open>
  Modelled from the spec: the callback chain (\<open>service.Callbacks\<close> and package
  \<open>callback\<close>) is not among the sources. What the handlers registered for a phase do
  together is a parameter: a function from the context and the arguments to the derived
  context (if any) and the error (if any). The before-batch handlers hold a pointer to
  the request and may rewrite it, so they return the request as well; the case handlers
  are taken to leave the request and the result they are handed as they are.
\<close>

record 'ctx Callbacks =
  BeforeInferenceSet :: "'ctx \<Rightarrow> BeforeInferenceSetArgs \<Rightarrow> InferenceRequest \<times> 'ctx option \<times> error option"
  AfterInferenceSet :: "'ctx \<Rightarrow> AfterInferenceSetArgs \<Rightarrow> error option"
  BeforeInferenceCase :: "'ctx \<Rightarrow> BeforeInferenceCaseArgs \<Rightarrow> 'ctx option \<times> error option"
  AfterInferenceCase :: "'ctx \<Rightarrow> AfterInferenceCaseArgs \<Rightarrow> error option"

definition RunBeforeInferenceSet ::
  "'ctx \<Rightarrow> 'ctx Callbacks option \<Rightarrow> BeforeInferenceSetArgs \<Rightarrow> InferenceRequest \<times> 'ctx option \<times> error option" where
  "RunBeforeInferenceSet ctx callbacks args =
     (case callbacks of
        None \<Rightarrow> (BeforeInferenceSetArgs.Request args, None, None)
      | Some cb \<Rightarrow> BeforeInferenceSet cb ctx args)"

definition RunAfterInferenceSet ::
  "'ctx \<Rightarrow> 'ctx Callbacks option \<Rightarrow> AfterInferenceSetArgs \<Rightarrow> error option" where
  "RunAfterInferenceSet ctx callbacks args =
     (case callbacks of None \<Rightarrow> None | Some cb \<Rightarrow> AfterInferenceSet cb ctx args)"

definition RunBeforeInferenceCase ::
  "'ctx \<Rightarrow> 'ctx Callbacks option \<Rightarrow> BeforeInferenceCaseArgs \<Rightarrow> 'ctx option \<times> error option" where
  "RunBeforeInferenceCase ctx callbacks args =
     (case callbacks of None \<Rightarrow> (None, None) | Some cb \<Rightarrow> BeforeInferenceCase cb ctx args)"

definition RunAfterInferenceCase ::
  "'ctx \<Rightarrow> 'ctx Callbacks option \<Rightarrow> AfterInferenceCaseArgs \<Rightarrow> error option" where
  "RunAfterInferenceCase ctx callbacks args =
     (case callbacks of None \<Rightarrow> None | Some cb \<Rightarrow> AfterInferenceCase cb ctx args)"

text \<open>
  \<open>service.Options\<close>, with the fields \<open>resolveInferenceOptions\<close> fills. The case source
  (\<open>evalset.Manager\<close>) is its \<open>Get\<close> method, which gives an error or an eval set; a
  nil eval set returned without error is not represented.
\<close>

type_synonym 'ctx Manager = "'ctx \<Rightarrow> string \<Rightarrow> string \<Rightarrow> error + EvalSet"

record 'ctx Options =
  EvalSetManager :: "'ctx Manager option"
  SessionIDSupplier :: "('ctx \<Rightarrow> string) option"
  Callbacks :: "'ctx Callbacks option"
  RunOptions :: "RunOption list"
  EvalCaseParallelism :: int
  EvalCaseParallelInferenceEnabled :: bool
  EvalCaseParallelEvaluationEnabled :: bool

type_synonym 'ctx Option = "'ctx Options \<Rightarrow> 'ctx Options"

text \<open>
  The collaborators outside the sources, as parameters: \<open>inference.Inference\<close> (the
  invocation runner of package \<open>service/internal/inference\<close>, closed over the service's
  agent runner), \<open>attachContextMessages\<close>, the clock and the constructor of the worker
  pool library. Each is a function of its arguments.
\<close>

record 'ctx extern =
  inference_Inference ::
    "'ctx \<Rightarrow> Invocation option list \<Rightarrow> SessionInput \<Rightarrow> string \<Rightarrow> RunOption list
      \<Rightarrow> error + Invocation option list"
  attachContextMessages :: "Invocation option list \<Rightarrow> Message option list \<Rightarrow> Invocation option list"
  time_Now :: time
  ants_NewPoolWithFunc :: "int \<Rightarrow> error option"

text \<open>
  What a run of the per-case pipeline does besides returning: the calls of the case
  callbacks and of the invocation runner, in order.
\<close>

datatype event =
    CalledBeforeInferenceCase BeforeInferenceCaseArgs
  | CalledAfterInferenceCase AfterInferenceCaseArgs
  | CalledRunner string SessionInput string "RunOption list"

section \<open>Text helpers\<close>

text \<open>The verb \<open>%d\<close> of \<open>fmt\<close> on a non-negative integer.\<close>

fun fmt_d :: "nat \<Rightarrow> string" where
  "fmt_d n = (if n < 10 then [char_of (48 + n)]
              else fmt_d (n div 10) @ [char_of (48 + n mod 10)])"

text \<open>
  The text of \<open>errors.Join(errs...)\<close>: the texts of the non-nil errors, one per line.
  (\<open>errors.Join\<close> returns nil when every error is nil; the executor calls it with a
  non-nil last error only.)
\<close>

fun join_lines :: "string list \<Rightarrow> string" where
  "join_lines [] = []"
| "join_lines [m] = m"
| "join_lines (m # ms) = m @ [CHR 0x0A] @ join_lines ms"

definition errors_Join :: "error option list \<Rightarrow> error" where
  "errors_Join errs = join_lines (List.map_filter id errs)"

section \<open>The per-case pipeline\<close>

definition newInferenceResult :: "string \<Rightarrow> string \<Rightarrow> string \<Rightarrow> EvalCase \<Rightarrow> InferenceResult" where
  "newInferenceResult appName evalSetID sessionID evalCase =
     (let userID = (case EvalCase.SessionInput evalCase of
                      None \<Rightarrow> []
                    | Some si \<Rightarrow> SessionInput.UserID si)
      in \<lparr>InferenceResult.AppName = appName,
          InferenceResult.EvalSetID = evalSetID,
          InferenceResult.EvalCaseID = EvalID evalCase,
          InferenceResult.EvalMode = EvalCase.EvalMode evalCase,
          Inferences = None,
          InferenceResult.SessionID = sessionID,
          InferenceResult.UserID = userID,
          Status = EvalStatusUnknown,
          ErrorMessage = []\<rparr>)"

definition newFailedInferenceResult :: "InferenceResult \<Rightarrow> error \<Rightarrow> InferenceResult" where
  "newFailedInferenceResult result err =
     result\<lparr>Status := EvalStatusFailed, ErrorMessage := err, Inferences := None\<rparr>"

fun seedMessagesFrom :: "nat \<Rightarrow> Message option list \<Rightarrow> error + Message list" where
  "seedMessagesFrom idx [] = Inr []"
| "seedMessagesFrom idx (None # messages) = Inl (''context message is nil at index '' @ fmt_d idx)"
| "seedMessagesFrom idx (Some message # messages) =
     (case seedMessagesFrom (Suc idx) messages of
        Inl err \<Rightarrow> Inl err
      | Inr seed \<Rightarrow> Inr (message # seed))"

definition seedMessagesFromPointers :: "Message option list \<Rightarrow> error + Message list" where
  "seedMessagesFromPointers messages = seedMessagesFrom 0 messages"

definition runBeforeInferenceCaseCallbacks ::
  "'ctx \<Rightarrow> 'ctx Callbacks option \<Rightarrow> InferenceRequest \<Rightarrow> string \<Rightarrow> string \<Rightarrow> 'ctx \<times> error option" where
  "runBeforeInferenceCaseCallbacks ctx callbacks req evalCaseID sessionID =
     (case RunBeforeInferenceCase ctx callbacks
             \<lparr>BeforeInferenceCaseArgs.Request = req,
              BeforeInferenceCaseArgs.EvalCaseID = evalCaseID,
              BeforeInferenceCaseArgs.SessionID = sessionID\<rparr> of
        (result, err) \<Rightarrow>
          (let ctx' = (case result of None \<Rightarrow> ctx | Some c \<Rightarrow> c)
           in case err of
                Some e \<Rightarrow>
                  (ctx', Some (''run before inference case callbacks (app='' @ InferenceRequest.AppName req
                     @ '', evalSetID='' @ InferenceRequest.EvalSetID req
                     @ '', evalCaseID='' @ evalCaseID @ '', sessionID='' @ sessionID @ ''): '' @ e))
              | None \<Rightarrow> (ctx', None)))"

definition runAfterInferenceCaseCallbacks ::
  "'ctx \<Rightarrow> 'ctx Callbacks option \<Rightarrow> InferenceRequest \<Rightarrow> string \<Rightarrow> InferenceResult \<Rightarrow> error option
     \<Rightarrow> time \<Rightarrow> error option" where
  "runAfterInferenceCaseCallbacks ctx callbacks req evalCaseID result err startTime =
     (case RunAfterInferenceCase ctx callbacks
             \<lparr>AfterInferenceCaseArgs.Request = req,
              AfterInferenceCaseArgs.Result = result,
              AfterInferenceCaseArgs.Error = err,
              AfterInferenceCaseArgs.StartTime = startTime\<rparr> of
        Some afterErr \<Rightarrow>
          Some (''run after inference case callbacks (app='' @ InferenceRequest.AppName req
            @ '', evalSetID='' @ InferenceRequest.EvalSetID req
            @ '', evalCaseID='' @ evalCaseID @ ''): '' @ afterErr)
      | None \<Rightarrow> None)"

text \<open>The prefix every processing error of a case carries.\<close>

definition caseErrPrefix :: "string \<Rightarrow> string \<Rightarrow> string" where
  "caseErrPrefix evalCaseID sessionID =
     ''inference eval case (evalCaseID='' @ evalCaseID @ '', sessionID='' @ sessionID @ ''): ''"

text \<open>
  The loop of \<open>inferenceEvalCase\<close> over the recorded actual conversation: the first turn
  that is nil or has nil user content gives the error.
\<close>

fun checkActualConversation :: "nat \<Rightarrow> Invocation option list \<Rightarrow> string option" where
  "checkActualConversation i [] = None"
| "checkActualConversation i (None # rest) =
     Some (''actual invocation is nil at index '' @ fmt_d i)"
| "checkActualConversation i (Some invocation # rest) =
     (if UserContent invocation = None
      then Some (''actual invocation user content is nil at index '' @ fmt_d i)
      else checkActualConversation (Suc i) rest)"

text \<open>
  The body of \<open>inferenceEvalCase\<close> from the construction of the result on (after the
  deferred after-case block is registered). It returns the result, the value of the
  variable \<open>err\<close> at the return, and the runner calls made.
\<close>

definition inferenceEvalCase_body ::
  "'ctx extern \<Rightarrow> 'ctx \<Rightarrow> InferenceRequest \<Rightarrow> EvalCase \<Rightarrow> 'ctx Options \<Rightarrow> string
     \<Rightarrow> InferenceResult \<times> error option \<times> event list" where
  "inferenceEvalCase_body ext ctx req evalCase opts sessionID =
     (let result = newInferenceResult (InferenceRequest.AppName req) (InferenceRequest.EvalSetID req)
                     sessionID evalCase;
          pre = caseErrPrefix (EvalID evalCase) sessionID;
          failed = (\<lambda>err. (newFailedInferenceResult result err, Some err, []))
      in case EvalCase.SessionInput evalCase of
           None \<Rightarrow> failed (pre @ ''session input is nil'')
         | Some sessionInput \<Rightarrow>
           if length (ActualConversation evalCase) \<noteq> 0 \<and> EvalCase.EvalMode evalCase \<noteq> EvalModeTrace
           then failed (pre @ ''actualConversation is only supported in trace mode'')
           else if EvalCase.EvalMode evalCase = EvalModeTrace then
             (if length (ActualConversation evalCase) \<noteq> 0 then
                (if length (Conversation evalCase) \<noteq> 0
                    \<and> length (ActualConversation evalCase) \<noteq> length (Conversation evalCase)
                 then failed (pre @ ''actual conversation length ''
                        @ fmt_d (length (ActualConversation evalCase))
                        @ '' does not match conversation length ''
                        @ fmt_d (length (Conversation evalCase)))
                 else case checkActualConversation 0 (ActualConversation evalCase) of
                        Some msg \<Rightarrow> failed (pre @ msg)
                      | None \<Rightarrow>
                          (result\<lparr>Inferences := Some (ActualConversation evalCase),
                                  Status := EvalStatusPassed\<rparr>, None, []))
              else if length (Conversation evalCase) = 0
              then failed (pre @ ''invocations are empty'')
              else (result\<lparr>Inferences := Some (Conversation evalCase),
                           Status := EvalStatusPassed\<rparr>, None, []))
           else if length (Conversation evalCase) = 0
           then failed (pre @ ''invocations are empty'')
           else
             (case seedMessagesFromPointers (EvalCase.ContextMessages evalCase) of
                Inl err \<Rightarrow> failed (pre @ err)
              | Inr seedMessages \<Rightarrow>
                  (let mergedRunOptions =
                         RunOptions opts
                           @ (if length seedMessages > 0
                              then [WithInjectedContextMessages seedMessages] else []);
                       call = CalledRunner (EvalID evalCase) sessionInput sessionID mergedRunOptions
                   in case inference_Inference ext ctx (Conversation evalCase) sessionInput
                             sessionID mergedRunOptions of
                        Inl err \<Rightarrow>
                          (newFailedInferenceResult result (pre @ err), Some (pre @ err), [call])
                      | Inr inferences \<Rightarrow>
                          (result\<lparr>Inferences :=
                                     Some (attachContextMessages ext inferences
                                             (EvalCase.ContextMessages evalCase)),
                                  Status := EvalStatusPassed\<rparr>, None, [call]))))"

text \<open>
  \<open>inferenceEvalCase\<close>: the session id, the nil check, the before-case callbacks, then
  the body with the deferred after-case block run at its return. Calling the nil
  session-id supplier panics.
\<close>

definition inferenceEvalCase ::
  "'ctx extern \<Rightarrow> 'ctx \<Rightarrow> InferenceRequest \<Rightarrow> EvalCase option \<Rightarrow> 'ctx Options
     \<Rightarrow> fault + InferenceResult \<times> event list" where
  "inferenceEvalCase ext ctx req evalCase opts =
     (case SessionIDSupplier opts of
        None \<Rightarrow> Inl Panic
      | Some supplier \<Rightarrow>
        (let sessionID = supplier ctx
         in case evalCase of
              None \<Rightarrow>
                Inr (newFailedInferenceResult
                       \<lparr>InferenceResult.AppName = InferenceRequest.AppName req,
                        InferenceResult.EvalSetID = InferenceRequest.EvalSetID req,
                        InferenceResult.EvalCaseID = [],
                        InferenceResult.EvalMode = EvalModeDefault,
                        Inferences = None,
                        InferenceResult.SessionID = sessionID,
                        InferenceResult.UserID = [],
                        Status = EvalStatusUnknown,
                        ErrorMessage = []\<rparr> ''eval case is nil'', [])
            | Some c \<Rightarrow>
                (let before = CalledBeforeInferenceCase
                       \<lparr>BeforeInferenceCaseArgs.Request = req,
                        BeforeInferenceCaseArgs.EvalCaseID = EvalID c,
                        BeforeInferenceCaseArgs.SessionID = sessionID\<rparr>
                 in case runBeforeInferenceCaseCallbacks ctx (Callbacks opts) req (EvalID c) sessionID of
                      (ctx', Some err) \<Rightarrow>
                        Inr (newFailedInferenceResult
                               \<lparr>InferenceResult.AppName = InferenceRequest.AppName req,
                                InferenceResult.EvalSetID = InferenceRequest.EvalSetID req,
                                InferenceResult.EvalCaseID = EvalID c,
                                InferenceResult.EvalMode = EvalModeDefault,
                                Inferences = None,
                                InferenceResult.SessionID = sessionID,
                                InferenceResult.UserID = [],
                                Status = EvalStatusUnknown,
                                ErrorMessage = []\<rparr> err, [before])
                    | (ctx', None) \<Rightarrow>
                        (let caseStartTime = time_Now ext
                         in case inferenceEvalCase_body ext ctx' req c opts sessionID of
                              (result, err, calls) \<Rightarrow>
                                (let after = CalledAfterInferenceCase
                                       \<lparr>AfterInferenceCaseArgs.Request = req,
                                        AfterInferenceCaseArgs.Result = result,
                                        AfterInferenceCaseArgs.Error = err,
                                        AfterInferenceCaseArgs.StartTime = caseStartTime\<rparr>
                                 in case runAfterInferenceCaseCallbacks ctx' (Callbacks opts) req (EvalID c)
                                           result err caseStartTime of
                                      Some afterErr \<Rightarrow>
                                        Inr (newFailedInferenceResult result
                                               (errors_Join [err, Some afterErr]),
                                             before # calls @ [after])
                                    | None \<Rightarrow> Inr (result, before # calls @ [after]))))))"

section \<open>The batch callbacks\<close>

definition runBeforeInferenceSetCallbacks ::
  "'ctx \<Rightarrow> 'ctx Callbacks option \<Rightarrow> InferenceRequest \<Rightarrow> 'ctx \<times> InferenceRequest \<times> error option" where
  "runBeforeInferenceSetCallbacks ctx callbacks req =
     (case RunBeforeInferenceSet ctx callbacks \<lparr>BeforeInferenceSetArgs.Request = req\<rparr> of
        (req', result, err) \<Rightarrow>
          (let ctx' = (case result of None \<Rightarrow> ctx | Some c \<Rightarrow> c)
           in case err of
                Some e \<Rightarrow>
                  (ctx', req', Some (''run before inference set callbacks (app='' @ InferenceRequest.AppName req'
                     @ '', evalSetID='' @ InferenceRequest.EvalSetID req' @ ''): '' @ e))
              | None \<Rightarrow> (ctx', req', None)))"

definition runAfterInferenceSetCallbacks ::
  "'ctx \<Rightarrow> 'ctx Callbacks option \<Rightarrow> InferenceRequest \<Rightarrow> InferenceResult option list option
     \<Rightarrow> error option \<Rightarrow> time \<Rightarrow> error option" where
  "runAfterInferenceSetCallbacks ctx callbacks req results err startTime =
     (case RunAfterInferenceSet ctx callbacks
             \<lparr>AfterInferenceSetArgs.Request = req,
              AfterInferenceSetArgs.Results = results,
              AfterInferenceSetArgs.Error = err,
              AfterInferenceSetArgs.StartTime = startTime\<rparr> of
        Some e \<Rightarrow>
          Some (''run after inference set callbacks (app='' @ InferenceRequest.AppName req
            @ '', evalSetID='' @ InferenceRequest.EvalSetID req @ ''): '' @ e)
      | None \<Rightarrow> None)"

section \<open>The service and its options\<close>

text \<open>
  The worker pool of the library \<open>ants\<close> is known by its size. The service \<open>local\<close>
  holds the defaults of the options and the memo of the worker pool.
\<close>

datatype PoolWithFunc = PoolWithFunc int

record 'ctx local =
  evalSetManager :: "'ctx Manager option"
  sessionIDSupplier :: "('ctx \<Rightarrow> string) option"
  callbacks :: "'ctx Callbacks option"
  runOptions :: "RunOption list"
  evalCaseParallelism :: int
  evalCaseParallelInferenceEnabled :: bool
  evalCaseParallelEvaluationEnabled :: bool
  evalCaseInferencePoolOnce :: bool
  evalCaseInferencePool :: "PoolWithFunc option"
  evalCaseInferencePoolErr :: "error option"

definition createEvalCaseInferencePool :: "'ctx extern \<Rightarrow> int \<Rightarrow> error + PoolWithFunc" where
  "createEvalCaseInferencePool ext sz =
     (if sz \<le> 0 then Inl ''pool size must be greater than 0''
      else case ants_NewPoolWithFunc ext sz of
             Some err \<Rightarrow> Inl (''create eval case inference pool: '' @ err)
           | None \<Rightarrow> Inr (PoolWithFunc sz))"

text \<open>
  Modelled from the spec: \<open>ensureEvalCaseInferencePool\<close> as its callers use it, with the
  worker count as argument and the pool and the error as results; the version among the
  sources takes no argument and reads the count of the service. The pool is built once,
  on first use, and the first outcome, pool or error, is kept for the life of the
  service (\<open>sync.Once\<close>).
\<close>

definition ensureEvalCaseInferencePool ::
  "'ctx extern \<Rightarrow> 'ctx local \<Rightarrow> int \<Rightarrow> 'ctx local \<times> PoolWithFunc option \<times> error option" where
  "ensureEvalCaseInferencePool ext s sz =
     (let s' = (if evalCaseInferencePoolOnce s then s
                else if evalCaseInferencePool s \<noteq> None then s\<lparr>evalCaseInferencePoolOnce := True\<rparr>
                else case createEvalCaseInferencePool ext sz of
                       Inl err \<Rightarrow> s\<lparr>evalCaseInferencePoolOnce := True,
                                   evalCaseInferencePoolErr := Some err\<rparr>
                     | Inr pool \<Rightarrow> s\<lparr>evalCaseInferencePoolOnce := True,
                                    evalCaseInferencePool := Some pool\<rparr>)
      in (s', evalCaseInferencePool s', evalCaseInferencePoolErr s'))"

text \<open>The options a call starts from, and the mutators of the call applied in order.\<close>

definition defaultInferenceOptions :: "'ctx local \<Rightarrow> 'ctx Options" where
  "defaultInferenceOptions s =
     \<lparr>EvalSetManager = evalSetManager s,
      SessionIDSupplier = sessionIDSupplier s,
      Callbacks = callbacks s,
      RunOptions = [] @ runOptions s,
      EvalCaseParallelism = evalCaseParallelism s,
      EvalCaseParallelInferenceEnabled = evalCaseParallelInferenceEnabled s,
      EvalCaseParallelEvaluationEnabled = evalCaseParallelEvaluationEnabled s\<rparr>"

fun applyOptions :: "'ctx Options \<Rightarrow> 'ctx Option list \<Rightarrow> 'ctx Options" where
  "applyOptions callOpts [] = callOpts"
| "applyOptions callOpts (o1 # opt) = applyOptions (o1 callOpts) opt"

definition resolveInferenceOptions ::
  "'ctx extern \<Rightarrow> 'ctx local \<Rightarrow> 'ctx Option list \<Rightarrow> 'ctx local \<times> (error + 'ctx Options)" where
  "resolveInferenceOptions ext s opt =
     (let callOpts = applyOptions (defaultInferenceOptions s) opt
      in if EvalSetManager callOpts = None then (s, Inl ''eval set manager is nil'')
         else if SessionIDSupplier callOpts = None then (s, Inl ''session id supplier is nil'')
         else if EvalCaseParallelInferenceEnabled callOpts then
           (if EvalCaseParallelism callOpts \<le> 0
            then (s, Inl ''eval case parallelism must be greater than 0'')
            else case ensureEvalCaseInferencePool ext s (EvalCaseParallelism callOpts) of
                   (s', pool, Some err) \<Rightarrow> (s', Inl err)
                 | (s', pool, None) \<Rightarrow> (s', Inr callOpts))
         else (s, Inr callOpts))"

section \<open>The batch\<close>

definition validateInferenceRequest :: "InferenceRequest option \<Rightarrow> error option" where
  "validateInferenceRequest req =
     (case req of
        None \<Rightarrow> Some ''inference request is nil''
      | Some r \<Rightarrow>
          if InferenceRequest.AppName r = [] then Some ''app name is empty''
          else if InferenceRequest.EvalSetID r = [] then Some ''eval set id is empty''
          else None)"

text \<open>
  \<open>loadInferenceEvalCases\<close>: the non-nil cases of the eval set, all of them when the
  request names none, else the ones whose id the request names, in the order of the set.
\<close>

fun nonNilCases :: "EvalCase option list \<Rightarrow> EvalCase list" where
  "nonNilCases [] = []"
| "nonNilCases (None # evalCases) = nonNilCases evalCases"
| "nonNilCases (Some evalCase # evalCases) = evalCase # nonNilCases evalCases"

definition loadInferenceEvalCases ::
  "'ctx \<Rightarrow> InferenceRequest \<Rightarrow> 'ctx Manager \<Rightarrow> error + EvalCase option list" where
  "loadInferenceEvalCases ctx req mgr =
     (case mgr ctx (InferenceRequest.AppName req) (InferenceRequest.EvalSetID req) of
        Inl err \<Rightarrow> Inl (''get eval set: '' @ err)
      | Inr evalSet \<Rightarrow>
          if length (EvalCaseIDs req) = 0
          then Inr (map Some (nonNilCases (EvalCases evalSet)))
          else Inr (map Some (filter (\<lambda>evalCase. EvalID evalCase \<in> set (EvalCaseIDs req))
                                (nonNilCases (EvalCases evalSet)))))"

text \<open>The serial strategy: the cases in order, each result appended.\<close>

fun inferEvalCasesSerial ::
  "'ctx extern \<Rightarrow> 'ctx \<Rightarrow> InferenceRequest \<Rightarrow> EvalCase option list \<Rightarrow> 'ctx Options
     \<Rightarrow> fault + InferenceResult option list \<times> event list" where
  "inferEvalCasesSerial ext ctx req [] opts = Inr ([], [])"
| "inferEvalCasesSerial ext ctx req (evalCase # evalCases) opts =
     (case inferenceEvalCase ext ctx req evalCase opts of
        Inl f \<Rightarrow> Inl f
      | Inr (result, log) \<Rightarrow>
          (case inferEvalCasesSerial ext ctx req evalCases opts of
             Inl f \<Rightarrow> Inl f
           | Inr (results, logs) \<Rightarrow> Inr (Some result # results, log @ logs)))"

subsection \<open>The parallel strategy\<close>

text \<open>
  The task parameter. Its pointers to the service, to the shared results array and to
  the wait group are handles (\<open>Some ()\<close> when set, \<open>None\<close> when nil); the array and the
  counter live in the state of the batch.
\<close>

record 'ctx evalCaseInferenceParam =
  p_idx :: nat
  p_ctx :: "'ctx option"
  p_req :: "InferenceRequest option"
  p_evalCase :: "EvalCase option"
  p_opts :: "'ctx Options option"
  p_svc :: "unit option"
  p_results :: "unit option"
  p_wg :: "unit option"

definition reset :: "'ctx evalCaseInferenceParam \<Rightarrow> 'ctx evalCaseInferenceParam" where
  "reset p = p\<lparr>p_idx := 0, p_ctx := None, p_req := None, p_evalCase := None, p_opts := None,
               p_svc := None, p_results := None, p_wg := None\<rparr>"

text \<open>\<open>new(evalCaseInferenceParam)\<close>, what \<open>evalCaseInferenceParamPool\<close> makes when empty.\<close>

definition newParam :: "'ctx evalCaseInferenceParam" where
  "newParam = \<lparr>p_idx = 0, p_ctx = None, p_req = None, p_evalCase = None, p_opts = None,
               p_svc = None, p_results = None, p_wg = None\<rparr>"

text \<open>
  The state of a parallel batch: the results array, the counter of the wait group, the
  index the submission loop has reached, the tasks the pool has accepted and that have
  not finished, and the parameter pool. Three fields observe the run: the events of the
  cases in order of completion, the task indices for which \<open>wg.Done()\<close> was called, and
  the answers of \<open>pool.Invoke\<close> in order of submission.
\<close>

record 'ctx batch =
  b_results :: "InferenceResult option list"
  b_wg :: int
  b_next :: nat
  b_inflight :: "'ctx evalCaseInferenceParam list"
  b_paramPool :: "'ctx evalCaseInferenceParam list"
  b_log :: "event list"
  b_done :: "nat list"
  b_invoked :: "error option list"

text \<open>
  A run interleaves two kinds of steps: the submission loop handles its next case, with
  the answer of \<open>pool.Invoke\<close> (nil when the pool takes the task), or a worker finishes
  the task of a case it was given.
\<close>

datatype action = Submit "error option" | Finish nat

text \<open>
  \<open>evalCaseInferenceParamPool.Get()\<close>: a parameter of the pool, a new one when the pool
  is empty.
\<close>

definition poolGet :: "'ctx evalCaseInferenceParam list \<Rightarrow> 'ctx evalCaseInferenceParam \<times> 'ctx evalCaseInferenceParam list" where
  "poolGet pool = (case pool of [] \<Rightarrow> (newParam, []) | p # rest \<Rightarrow> (p, rest))"

text \<open>One iteration of the loop of \<open>inferEvalCasesParallel\<close>.\<close>

definition submitStep ::
  "'ctx \<Rightarrow> InferenceRequest \<Rightarrow> EvalCase option list \<Rightarrow> 'ctx Options \<Rightarrow> error option
     \<Rightarrow> 'ctx batch \<Rightarrow> fault + 'ctx batch" where
  "submitStep ctx req evalCases opts answer st =
     (let idx = b_next st in
      if idx \<ge> length evalCases then Inl NotARun
      else
        (let evalCase = evalCases ! idx;
             (got, rest) = poolGet (b_paramPool st);
             param = got\<lparr>p_idx := idx, p_ctx := Some ctx, p_req := Some req, p_evalCase := evalCase,
                         p_opts := Some opts, p_svc := Some (), p_results := Some (), p_wg := Some ()\<rparr>;
             st1 = st\<lparr>b_wg := b_wg st + 1, b_paramPool := rest, b_invoked := b_invoked st @ [answer]\<rparr>
         in case answer of
              None \<Rightarrow> Inr (st1\<lparr>b_inflight := b_inflight st1 @ [param], b_next := idx + 1\<rparr>)
            | Some err \<Rightarrow>
                if b_wg st1 \<le> 0 then Inl Panic
                else (case SessionIDSupplier opts of
                       None \<Rightarrow> Inl Panic
                     | Some supplier \<Rightarrow>
                        (case evalCase of
                           None \<Rightarrow> Inl Panic
                         | Some c \<Rightarrow>
                             if idx \<ge> length (b_results st1) then Inl Panic
                             else Inr (st1\<lparr>b_wg := b_wg st1 - 1,
                                            b_done := b_done st1 @ [idx],
                                            b_results := list_update (b_results st1) idx
                                               (Some (newFailedInferenceResult
                                                  (newInferenceResult (InferenceRequest.AppName req)
                                                     (InferenceRequest.EvalSetID req) (supplier ctx) c)
                                                  (''submit inference task for eval case '' @ EvalID c
                                                     @ '': '' @ err))),
                                            b_paramPool := b_paramPool st1 @ [reset param],
                                            b_next := idx + 1\<rparr>)))))"

text \<open>
  The function the pool runs on a task (\<open>createEvalCaseInferencePool\<close>): the per-case
  pipeline on the fields of the parameter, the result stored at the index of the
  parameter, then the deferred block: \<open>wg.Done()\<close>, reset, release. A panic in the task
  is the outcome of the run; that the library recovers the panics of its workers is not
  represented.
\<close>

definition workerTask ::
  "'ctx extern \<Rightarrow> 'ctx evalCaseInferenceParam \<Rightarrow> 'ctx batch \<Rightarrow> fault + 'ctx batch" where
  "workerTask ext param st =
     (case (p_wg param, p_results param, p_svc param) of
        (Some wg, Some results, Some svc) \<Rightarrow>
          (case (p_ctx param, p_req param, p_opts param) of
             (Some ctx, Some req, Some opts) \<Rightarrow>
               (case inferenceEvalCase ext ctx req (p_evalCase param) opts of
                  Inl f \<Rightarrow> Inl f
                | Inr (result, log) \<Rightarrow>
                    if p_idx param \<ge> length (b_results st) then Inl Panic
                    else if b_wg st \<le> 0 then Inl Panic
                    else Inr (st\<lparr>b_results := list_update (b_results st) (p_idx param) (Some result),
                                  b_log := b_log st @ log,
                                  b_wg := b_wg st - 1,
                                  b_done := b_done st @ [p_idx param],
                                  b_paramPool := b_paramPool st @ [reset param]\<rparr>))
           | _ \<Rightarrow> Inl Panic)
      | _ \<Rightarrow> Inl Panic)"

definition finishStep :: "'ctx extern \<Rightarrow> nat \<Rightarrow> 'ctx batch \<Rightarrow> fault + 'ctx batch" where
  "finishStep ext i st =
     (case find (\<lambda>p. p_idx p = i) (b_inflight st) of
        None \<Rightarrow> Inl NotARun
      | Some param \<Rightarrow>
          workerTask ext param (st\<lparr>b_inflight := filter (\<lambda>p. p_idx p \<noteq> i) (b_inflight st)\<rparr>))"

fun step ::
  "'ctx extern \<Rightarrow> 'ctx \<Rightarrow> InferenceRequest \<Rightarrow> EvalCase option list \<Rightarrow> 'ctx Options
     \<Rightarrow> action \<Rightarrow> 'ctx batch \<Rightarrow> fault + 'ctx batch" where
  "step ext ctx req evalCases opts (Submit answer) st = submitStep ctx req evalCases opts answer st"
| "step ext ctx req evalCases opts (Finish i) st = finishStep ext i st"

fun exec ::
  "'ctx extern \<Rightarrow> 'ctx \<Rightarrow> InferenceRequest \<Rightarrow> EvalCase option list \<Rightarrow> 'ctx Options
     \<Rightarrow> action list \<Rightarrow> 'ctx batch \<Rightarrow> fault + 'ctx batch" where
  "exec ext ctx req evalCases opts [] st = Inr st"
| "exec ext ctx req evalCases opts (a # sched) st =
     (case step ext ctx req evalCases opts a st of
        Inl f \<Rightarrow> Inl f
      | Inr st' \<Rightarrow> exec ext ctx req evalCases opts sched st')"

definition initBatch :: "nat \<Rightarrow> 'ctx evalCaseInferenceParam list \<Rightarrow> 'ctx batch" where
  "initBatch n paramPool =
     \<lparr>b_results = replicate n None, b_wg = 0, b_next = 0, b_inflight = [],
      b_paramPool = paramPool, b_log = [], b_done = [], b_invoked = []\<rparr>"

text \<open>
  \<open>inferEvalCasesParallel\<close> along a schedule. The submission loop is over and
  \<open>wg.Wait()\<close> returns when the counter is zero; a schedule that stops before is not a
  run of the function to its return. With a nil pool and no error from
  \<open>ensureEvalCaseInferencePool\<close>, the first \<open>pool.Invoke\<close> panics. The value is the
  service, the two results of the Go function and the final state of the batch.
\<close>

definition inferEvalCasesParallel ::
  "'ctx extern \<Rightarrow> 'ctx local \<Rightarrow> 'ctx \<Rightarrow> InferenceRequest \<Rightarrow> EvalCase option list \<Rightarrow> 'ctx Options
     \<Rightarrow> 'ctx evalCaseInferenceParam list \<Rightarrow> action list
     \<Rightarrow> fault + 'ctx local \<times> InferenceResult option list option \<times> error option \<times> 'ctx batch" where
  "inferEvalCasesParallel ext s ctx req evalCases opts paramPool sched =
     (case ensureEvalCaseInferencePool ext s (EvalCaseParallelism opts) of
        (s', pool, Some err) \<Rightarrow> Inr (s', None, Some err, initBatch 0 paramPool)
      | (s', None, None) \<Rightarrow>
          (case sched of
             [] \<Rightarrow> if evalCases = [] then Inr (s', Some [], None, initBatch 0 paramPool)
                   else Inl NotARun
           | Submit answer # rest \<Rightarrow> if evalCases = [] then Inl NotARun else Inl Panic
           | Finish i # rest \<Rightarrow> Inl NotARun)
      | (s', Some pool, None) \<Rightarrow>
          (case exec ext ctx req evalCases opts sched (initBatch (length evalCases) paramPool) of
             Inl f \<Rightarrow> Inl f
           | Inr st \<Rightarrow>
               if b_next st = length evalCases \<and> b_wg st = 0
               then Inr (s', Some (b_results st), None, st)
               else Inl NotARun))"

subsection \<open>The executor\<close>

definition inferEvalCases ::
  "'ctx extern \<Rightarrow> 'ctx local \<Rightarrow> 'ctx \<Rightarrow> InferenceRequest \<Rightarrow> EvalCase option list \<Rightarrow> 'ctx Options
     \<Rightarrow> 'ctx evalCaseInferenceParam list \<Rightarrow> action list
     \<Rightarrow> fault + 'ctx local \<times> InferenceResult option list option \<times> error option \<times> event list" where
  "inferEvalCases ext s ctx req evalCases opts paramPool sched =
     (if EvalCaseParallelInferenceEnabled opts
      then (case inferEvalCasesParallel ext s ctx req evalCases opts paramPool sched of
              Inl f \<Rightarrow> Inl f
            | Inr (s', results, err, st) \<Rightarrow> Inr (s', results, err, b_log st))
      else (case inferEvalCasesSerial ext ctx req evalCases opts of
              Inl f \<Rightarrow> Inl f
            | Inr (results, log) \<Rightarrow> Inr (s, Some results, None, log)))"

text \<open>
  \<open>Inference\<close> from the loading of the cases on, the part the deferred after-batch
  block surrounds; it gives the two named results at the return.
\<close>

definition Inference_body ::
  "'ctx extern \<Rightarrow> 'ctx local \<Rightarrow> 'ctx \<Rightarrow> InferenceRequest \<Rightarrow> 'ctx Options
     \<Rightarrow> 'ctx evalCaseInferenceParam list \<Rightarrow> action list
     \<Rightarrow> fault + 'ctx local \<times> InferenceResult option list option \<times> error option \<times> event list" where
  "Inference_body ext s ctx req callOpts paramPool sched =
     (case EvalSetManager callOpts of
        None \<Rightarrow> Inl Panic
      | Some mgr \<Rightarrow>
          (case loadInferenceEvalCases ctx req mgr of
             Inl err \<Rightarrow> Inr (s, None, Some (''load inference eval cases: '' @ err), [])
           | Inr evalCases \<Rightarrow>
               if length evalCases = 0 then Inr (s, Some [], None, [])
               else (case inferEvalCases ext s ctx req evalCases callOpts paramPool sched of
                       Inl f \<Rightarrow> Inl f
                     | Inr (s', results, Some err, log) \<Rightarrow>
                         Inr (s', None, Some (''infer eval cases: '' @ err), log)
                     | Inr (s', results, None, log) \<Rightarrow> Inr (s', results, None, log))))"

text \<open>
  \<open>Inference\<close>. The value is the service after the call, the results and the error the
  Go function returns, and the events of the cases. The parameter pool is the package
  variable \<open>evalCaseInferenceParamPool\<close> at the call; the schedule is read by the
  parallel strategy only.
\<close>

definition Inference ::
  "'ctx extern \<Rightarrow> 'ctx local \<Rightarrow> 'ctx \<Rightarrow> InferenceRequest option \<Rightarrow> 'ctx Option list
     \<Rightarrow> 'ctx evalCaseInferenceParam list \<Rightarrow> action list
     \<Rightarrow> fault + 'ctx local \<times> InferenceResult option list option \<times> error option \<times> event list" where
  "Inference ext s ctx req opt paramPool sched =
     (case validateInferenceRequest req of
        Some err \<Rightarrow> Inr (s, None, Some (''validate inference request: '' @ err), [])
      | None \<Rightarrow>
          (case req of
             None \<Rightarrow> Inl Panic
           | Some req0 \<Rightarrow>
               (case resolveInferenceOptions ext s opt of
                  (s1, Inl err) \<Rightarrow> Inr (s1, None, Some err, [])
                | (s1, Inr callOpts) \<Rightarrow>
                    (case runBeforeInferenceSetCallbacks ctx (Callbacks callOpts) req0 of
                       (ctx1, req1, Some err) \<Rightarrow>
                         Inr (s1, None,
                              Some (''run before inference set callbacks (app='' @ InferenceRequest.AppName req1
                                @ '', evalSetID='' @ InferenceRequest.EvalSetID req1 @ ''): '' @ err), [])
                     | (ctx1, req1, None) \<Rightarrow>
                         (let startTime = time_Now ext
                          in case Inference_body ext s1 ctx1 req1 callOpts paramPool sched of
                               Inl f \<Rightarrow> Inl f
                             | Inr (s2, results, err, log) \<Rightarrow>
                                 (case runAfterInferenceSetCallbacks ctx1 (Callbacks callOpts) req1
                                         results err startTime of
                                    Some afterErr \<Rightarrow> Inr (s2, None, Some afterErr, log)
                                  | None \<Rightarrow> Inr (s2, results, err, log)))))))"

section \<open>The run options at the runner\<close>




section \<open>Observations on a run of the per-case pipeline\<close>


fun isRunnerCall :: "event \<Rightarrow> bool" where
  "isRunnerCall (CalledRunner evalCaseID sessionInput sessionID ros) = True"
| "isRunnerCall ev = False"

definition resultOf :: "fault + InferenceResult \<times> event list \<Rightarrow> InferenceResult option" where
  "resultOf out = (case out of Inl f \<Rightarrow> None | Inr (r, log) \<Rightarrow> Some r)"


text \<open>A recorded turn is usable when it is not nil and has user content.\<close>

fun turnOK :: "Invocation option \<Rightarrow> bool" where
  "turnOK None = False"
| "turnOK (Some invocation) = (UserContent invocation \<noteq> None)"

section \<open>Sample inputs\<close>

text \<open>
  A runner that echoes the conversation, a request, a one-turn conversation and the
  eval case the tests build (\<open>makeEvalCase\<close>), with the mode, the recorded actual
  conversation and the session input left open.
\<close>

definition sample_ext :: "unit extern" where
  "sample_ext =
     \<lparr>inference_Inference = (\<lambda>ctx conversation sessionInput sessionID runOptions. Inr conversation),
      attachContextMessages = (\<lambda>inferences messages. inferences),
      time_Now = 123,
      ants_NewPoolWithFunc = (\<lambda>sz. None)\<rparr>"

definition sample_req :: InferenceRequest where
  "sample_req = \<lparr>InferenceRequest.AppName = ''app'', InferenceRequest.EvalSetID = ''set'', EvalCaseIDs = []\<rparr>"

definition sample_turn :: Invocation where
  "sample_turn =
     \<lparr>InvocationID = ''inv-1'', Invocation.ContextMessages = [],
      UserContent = Some \<lparr>Role = ''user'', Content = ''prompt''\<rparr>,
      FinalResponse = None, Tools = []\<rparr>"

definition sample_session :: SessionInput where
  "sample_session = \<lparr>SessionInput.UserID = ''user'', State = []\<rparr>"

definition sample_case ::
  "EvalMode \<Rightarrow> Invocation option list \<Rightarrow> SessionInput option \<Rightarrow> EvalCase" where
  "sample_case mode actual sessionInput =
     \<lparr>EvalID = ''case-1'', EvalCase.EvalMode = mode, EvalCase.ContextMessages = [],
      Conversation = [Some sample_turn], ActualConversation = actual,
      EvalCase.SessionInput = sessionInput\<rparr>"

text \<open>
  A case source holding two trace-mode cases, the second without session input.
\<close>

definition sample_cases :: "EvalCase option list" where
  "sample_cases =
     [Some (sample_case EvalModeTrace [] (Some sample_session)),
      Some ((sample_case EvalModeTrace [] None)\<lparr>EvalID := ''case-2''\<rparr>)]"

definition sample_manager :: "unit Manager" where
  "sample_manager = (\<lambda>ctx appName evalSetID. Inr \<lparr>EvalCases = sample_cases\<rparr>)"

definition sample_opts :: "unit Callbacks option \<Rightarrow> unit Options" where
  "sample_opts cbs =
     \<lparr>EvalSetManager = Some sample_manager,
      SessionIDSupplier = Some (\<lambda>ctx. ''session''),
      Callbacks = cbs,
      RunOptions = [],
      EvalCaseParallelism = 0,
      EvalCaseParallelInferenceEnabled = False,
      EvalCaseParallelEvaluationEnabled = False\<rparr>"

text \<open>Callbacks that do nothing, except that one phase returns an error.\<close>

definition quiet_callbacks :: "unit Callbacks" where
  "quiet_callbacks =
     \<lparr>BeforeInferenceSet = (\<lambda>ctx args. (BeforeInferenceSetArgs.Request args, None, None)),
      AfterInferenceSet = (\<lambda>ctx args. None),
      BeforeInferenceCase = (\<lambda>ctx args. (None, None)),
      AfterInferenceCase = (\<lambda>ctx args. None)\<rparr>"

definition before_case_fails :: "unit Callbacks" where
  "before_case_fails =
     quiet_callbacks\<lparr>BeforeInferenceCase := (\<lambda>ctx args. (None, Some ''before inference case failed''))\<rparr>"

definition after_case_fails :: "unit Callbacks" where
  "after_case_fails =
     quiet_callbacks\<lparr>AfterInferenceCase := (\<lambda>ctx args. Some ''after inference case failed'')\<rparr>"





section \<open>The parallel strategy observed\<close>

text \<open>The parameter the submission loop fills for the case at an index.\<close>

definition taskParam ::
  "'ctx \<Rightarrow> InferenceRequest \<Rightarrow> EvalCase option list \<Rightarrow> 'ctx Options \<Rightarrow> nat
     \<Rightarrow> 'ctx evalCaseInferenceParam" where
  "taskParam ctx req evalCases opts i =
     \<lparr>p_idx = i, p_ctx = Some ctx, p_req = Some req, p_evalCase = evalCases ! i,
      p_opts = Some opts, p_svc = Some (), p_results = Some (), p_wg = Some ()\<rparr>"

text \<open>
  The result a case produces, given the answer of the pool to its submission: the result
  of the per-case pipeline when the pool took the task, the failure built from the
  rejection otherwise.
\<close>

definition slotFor ::
  "'ctx extern \<Rightarrow> 'ctx \<Rightarrow> InferenceRequest \<Rightarrow> 'ctx Options \<Rightarrow> EvalCase option \<Rightarrow> error option
     \<Rightarrow> InferenceResult option" where
  "slotFor ext ctx req opts evalCase answer =
     (case answer of
        None \<Rightarrow> resultOf (inferenceEvalCase ext ctx req evalCase opts)
      | Some err \<Rightarrow>
          (case SessionIDSupplier opts of
             None \<Rightarrow> None
           | Some supplier \<Rightarrow>
               (case evalCase of
                  None \<Rightarrow> None
                | Some c \<Rightarrow>
                    Some (newFailedInferenceResult
                            (newInferenceResult (InferenceRequest.AppName req)
                               (InferenceRequest.EvalSetID req) (supplier ctx) c)
                            (''submit inference task for eval case '' @ EvalID c @ '': '' @ err)))))"

text \<open>The task indices in flight, and whether the case at an index is settled.\<close>

definition inflightIdx :: "'ctx batch \<Rightarrow> nat set" where
  "inflightIdx st = p_idx ` set (b_inflight st)"

definition settled :: "'ctx batch \<Rightarrow> nat \<Rightarrow> bool" where
  "settled st i = (i < b_next st \<and> i \<notin> inflightIdx st)"

text \<open>
  The invariant of a parallel batch: the results array keeps the length of the case
  list; the wait group counts the tasks in flight; each task in flight carries the
  parameter filled for its own index, and no two tasks share an index; the slot of a
  settled case holds the result of that case and every other slot is still nil;
  no settled slot is nil; \<open>wg.Done()\<close> was called once for each settled case and for
  no other.
\<close>

definition batchInv ::
  "'ctx extern \<Rightarrow> 'ctx \<Rightarrow> InferenceRequest \<Rightarrow> EvalCase option list \<Rightarrow> 'ctx Options \<Rightarrow> 'ctx batch \<Rightarrow> bool" where
  "batchInv ext ctx req evalCases opts st =
     (length (b_results st) = length evalCases
      \<and> b_next st = length (b_invoked st)
      \<and> b_next st \<le> length evalCases
      \<and> b_wg st = int (length (b_inflight st))
      \<and> distinct (map p_idx (b_inflight st))
      \<and> (\<forall>p \<in> set (b_inflight st).
            p = taskParam ctx req evalCases opts (p_idx p) \<and> p_idx p < b_next st
            \<and> b_invoked st ! p_idx p = None)
      \<and> (\<forall>i < length evalCases.
            b_results st ! i =
              (if settled st i then slotFor ext ctx req opts (evalCases ! i) (b_invoked st ! i)
               else None))
      \<and> (\<forall>i. settled st i \<longrightarrow> b_results st ! i \<noteq> None)
      \<and> (\<forall>i. count_list (b_done st) i = (if settled st i then 1 else 0)))"

text \<open>Every parameter in the pool is reset.\<close>

definition poolReset :: "'ctx evalCaseInferenceParam list \<Rightarrow> bool" where
  "poolReset pool = list_all (\<lambda>p. p = newParam) pool"

text \<open>The answers of the pool to the submissions of a schedule, in order.\<close>

fun answers :: "action list \<Rightarrow> error option list" where
  "answers [] = []"
| "answers (Submit answer # sched) = answer # answers sched"
| "answers (Finish i # sched) = answers sched"

text \<open>The results array of a run of each strategy, empty when there is none.\<close>

definition serialResults ::
  "fault + InferenceResult option list \<times> event list \<Rightarrow> InferenceResult option list" where
  "serialResults out = (case out of Inl f \<Rightarrow> [] | Inr (results, log) \<Rightarrow> results)"

definition parallelResults ::
  "fault + 'ctx local \<times> InferenceResult option list option \<times> error option \<times> 'ctx batch
     \<Rightarrow> InferenceResult option list" where
  "parallelResults out =
     (case out of
        Inl f \<Rightarrow> []
      | Inr (s, results, err, st) \<Rightarrow> (case results of None \<Rightarrow> [] | Some rs \<Rightarrow> rs))"

definition statuses :: "InferenceResult option list \<Rightarrow> EvalStatus option list" where
  "statuses results = map (map_option Status) results"

text \<open>
  A service with the case source of the samples, the options it resolves to when a call
  asks for two parallel workers, and the mutator asking for them.
\<close>

definition sample_service :: "unit local" where
  "sample_service =
     \<lparr>evalSetManager = Some sample_manager,
      sessionIDSupplier = Some (\<lambda>ctx. ''session''),
      callbacks = None,
      runOptions = [],
      evalCaseParallelism = 0,
      evalCaseParallelInferenceEnabled = False,
      evalCaseParallelEvaluationEnabled = False,
      evalCaseInferencePoolOnce = False,
      evalCaseInferencePool = None,
      evalCaseInferencePoolErr = None\<rparr>"

definition parallel_opts :: "unit Options" where
  "parallel_opts =
     (sample_opts None)\<lparr>EvalCaseParallelism := 2, EvalCaseParallelInferenceEnabled := True\<rparr>"

definition enableParallel :: "unit Option" where
  "enableParallel =
     (\<lambda>callOpts. callOpts\<lparr>EvalCaseParallelism := 2, EvalCaseParallelInferenceEnabled := True\<rparr>)"


text \<open>
  The memo of the worker pool is well formed: once the construction has been tried,
  there is a pool or an error.
\<close>

definition poolMemoOK :: "'ctx local \<Rightarrow> bool" where
  "poolMemoOK s =
     (evalCaseInferencePoolOnce s \<longrightarrow>
        evalCaseInferencePool s \<noteq> None \<or> evalCaseInferencePoolErr s \<noteq> None)"


definition batchResults ::
  "fault + 'ctx local \<times> InferenceResult option list option \<times> error option \<times> event list
     \<Rightarrow> InferenceResult option list option" where
  "batchResults out = (case out of Inl f \<Rightarrow> None | Inr (s, results, err, log) \<Rightarrow> results)"


section \<open>Properties of the per-case pipeline\<close>

lemma inferenceEvalCase_Some:
  assumes "SessionIDSupplier opts = Some supplier"
    and "runBeforeInferenceCaseCallbacks ctx (Callbacks opts) req (EvalID c) (supplier ctx) = (ctx', None)"
    and "inferenceEvalCase_body ext ctx' req c opts (supplier ctx) = (result, err, calls)"
  shows "inferenceEvalCase ext ctx req (Some c) opts =
     Inr (case runAfterInferenceCaseCallbacks ctx' (Callbacks opts) req (EvalID c) result err (time_Now ext) of
            Some afterErr \<Rightarrow> newFailedInferenceResult result (errors_Join [err, Some afterErr])
          | None \<Rightarrow> result,
          CalledBeforeInferenceCase
             \<lparr>BeforeInferenceCaseArgs.Request = req,
              BeforeInferenceCaseArgs.EvalCaseID = EvalID c,
              BeforeInferenceCaseArgs.SessionID = supplier ctx\<rparr>
          # calls @
          [CalledAfterInferenceCase
             \<lparr>AfterInferenceCaseArgs.Request = req,
              AfterInferenceCaseArgs.Result = result,
              AfterInferenceCaseArgs.Error = err,
              AfterInferenceCaseArgs.StartTime = time_Now ext\<rparr>])"
  using assms by (simp add: inferenceEvalCase_def Let_def split: option.splits)

lemma inferenceEvalCase_before_failed:
  assumes "SessionIDSupplier opts = Some supplier"
    and "runBeforeInferenceCaseCallbacks ctx (Callbacks opts) req (EvalID c) (supplier ctx) = (ctx', Some e)"
  shows "inferenceEvalCase ext ctx req (Some c) opts =
     Inr (newFailedInferenceResult
            \<lparr>InferenceResult.AppName = InferenceRequest.AppName req,
             InferenceResult.EvalSetID = InferenceRequest.EvalSetID req,
             InferenceResult.EvalCaseID = EvalID c,
             InferenceResult.EvalMode = EvalModeDefault,
             Inferences = None,
             InferenceResult.SessionID = supplier ctx,
             InferenceResult.UserID = [],
             Status = EvalStatusUnknown,
             ErrorMessage = []\<rparr> e,
          [CalledBeforeInferenceCase
             \<lparr>BeforeInferenceCaseArgs.Request = req,
              BeforeInferenceCaseArgs.EvalCaseID = EvalID c,
              BeforeInferenceCaseArgs.SessionID = supplier ctx\<rparr>])"
  using assms by (simp add: inferenceEvalCase_def Let_def)


lemma body_shape:
  "case inferenceEvalCase_body ext ctx req c opts sid of
     (result, err, calls) \<Rightarrow>
       (case err of
          Some e \<Rightarrow> result = newFailedInferenceResult
              (newInferenceResult (InferenceRequest.AppName req) (InferenceRequest.EvalSetID req) sid c) e
        | None \<Rightarrow> Status result = EvalStatusPassed \<and> Inferences result \<noteq> None)"
  by (simp add: inferenceEvalCase_body_def Let_def newFailedInferenceResult_def split: option.split sum.split)



lemma checkActualConversation_None:
  "checkActualConversation i turns = None \<longleftrightarrow> list_all turnOK turns"
  by (induction i turns rule: checkActualConversation.induct) auto

lemma checkActualConversation_Some:
  "(\<exists>m. checkActualConversation i turns = Some m) \<longleftrightarrow> \<not> list_all turnOK turns"
  using checkActualConversation_None [of i turns] by (cases "checkActualConversation i turns") auto

lemma body_trace_actual:
  assumes "EvalCase.EvalMode c = EvalModeTrace" and "ActualConversation c \<noteq> []"
  shows "case inferenceEvalCase_body ext ctx req c opts sid of
     (result, err, calls) \<Rightarrow>
       calls = [] \<and>
       (if EvalCase.SessionInput c \<noteq> None \<and> list_all turnOK (ActualConversation c)
           \<and> (Conversation c = [] \<or> length (ActualConversation c) = length (Conversation c))
        then err = None \<and> result =
               (newInferenceResult (InferenceRequest.AppName req) (InferenceRequest.EvalSetID req) sid c)
                 \<lparr>Inferences := Some (ActualConversation c), Status := EvalStatusPassed\<rparr>
        else err \<noteq> None)"
  using assms
  by (simp add: inferenceEvalCase_body_def Let_def checkActualConversation_None
           checkActualConversation_Some split: option.split sum.split)

lemma body_nontrace_actual:
  assumes "EvalCase.EvalMode c \<noteq> EvalModeTrace" and "ActualConversation c \<noteq> []"
  shows "inferenceEvalCase_body ext ctx req c opts sid =
     (let result = newInferenceResult (InferenceRequest.AppName req) (InferenceRequest.EvalSetID req) sid c;
          e = caseErrPrefix (EvalID c) sid @
                (if EvalCase.SessionInput c = None then ''session input is nil''
                 else ''actualConversation is only supported in trace mode'')
      in (newFailedInferenceResult result e, Some e, []))"
  using assms
  by (simp add: inferenceEvalCase_body_def Let_def split: option.split)


text \<open>
  Claim C7. If the after-case callbacks return an error for a case, the final result of
  the case is failed, its inferences are nil, and its error message is the text of the
  processing error (when there is one) joined on a new line with the text of the callback
  error, wrapped with the application, eval set and eval case identifiers. The result the
  callbacks overwrite is any result of the pipeline, a passed one included.
\<close>

theorem after_case_error_overwrites_result:
  assumes "SessionIDSupplier opts = Some supplier"
    and "runBeforeInferenceCaseCallbacks ctx (Callbacks opts) req (EvalID c) (supplier ctx) = (ctx', None)"
    and "inferenceEvalCase_body ext ctx' req c opts (supplier ctx) = (result, err, calls)"
    and "RunAfterInferenceCase ctx' (Callbacks opts)
           \<lparr>AfterInferenceCaseArgs.Request = req, AfterInferenceCaseArgs.Result = result,
            AfterInferenceCaseArgs.Error = err, AfterInferenceCaseArgs.StartTime = time_Now ext\<rparr>
         = Some afterErr"
  shows "\<exists>r log. inferenceEvalCase ext ctx req (Some c) opts = Inr (r, log)
           \<and> Status r = EvalStatusFailed
           \<and> Inferences r = None
           \<and> ErrorMessage r =
               (case err of None \<Rightarrow> [] | Some e \<Rightarrow> e @ [CHR 0x0A])
               @ ''run after inference case callbacks (app='' @ InferenceRequest.AppName req
               @ '', evalSetID='' @ InferenceRequest.EvalSetID req
               @ '', evalCaseID='' @ EvalID c @ ''): '' @ afterErr"
proof -
  let ?wrapped = "''run after inference case callbacks (app='' @ InferenceRequest.AppName req
               @ '', evalSetID='' @ InferenceRequest.EvalSetID req
               @ '', evalCaseID='' @ EvalID c @ ''): '' @ afterErr"
  have after: "runAfterInferenceCaseCallbacks ctx' (Callbacks opts) req (EvalID c) result err (time_Now ext)
                 = Some ?wrapped"
    using assms(4) by (simp add: runAfterInferenceCaseCallbacks_def)
  have run: "inferenceEvalCase ext ctx req (Some c) opts =
      Inr (newFailedInferenceResult result (errors_Join [err, Some ?wrapped]),
           CalledBeforeInferenceCase
             \<lparr>BeforeInferenceCaseArgs.Request = req,
              BeforeInferenceCaseArgs.EvalCaseID = EvalID c,
              BeforeInferenceCaseArgs.SessionID = supplier ctx\<rparr>
           # calls @
           [CalledAfterInferenceCase
             \<lparr>AfterInferenceCaseArgs.Request = req,
              AfterInferenceCaseArgs.Result = result,
              AfterInferenceCaseArgs.Error = err,
              AfterInferenceCaseArgs.StartTime = time_Now ext\<rparr>])"
    using inferenceEvalCase_Some [OF assms(1) assms(2) assms(3)] after by simp
  have join: "errors_Join [err, Some ?wrapped] =
      (case err of None \<Rightarrow> [] | Some e \<Rightarrow> e @ [CHR 0x0A]) @ ?wrapped"
    by (cases err) (simp_all add: errors_Join_def List.map_filter_def)
  show ?thesis
    unfolding run join by (simp add: newFailedInferenceResult_def)
qed


lemmas sample_defs = sample_ext_def sample_req_def sample_turn_def sample_session_def
  sample_case_def sample_opts_def quiet_callbacks_def before_case_fails_def after_case_fails_def

theorem after_case_error_overwrites_result_witness:
  "(\<exists>calls result. inferenceEvalCase_body sample_ext () sample_req
       (sample_case EvalModeTrace [] (Some sample_session))
       (sample_opts (Some after_case_fails)) ''session'' = (result, None, calls)
       \<and> Status result = EvalStatusPassed)
   \<and> (\<exists>r log. inferenceEvalCase sample_ext () sample_req
          (Some (sample_case EvalModeTrace [] (Some sample_session)))
          (sample_opts (Some after_case_fails)) = Inr (r, log)
        \<and> Status r = EvalStatusFailed
        \<and> Inferences r = None
        \<and> ErrorMessage r =
            ''run after inference case callbacks (app=app, evalSetID=set, evalCaseID=case-1): after inference case failed'')"
proof -
  let ?c = "sample_case EvalModeTrace [] (Some sample_session)"
  let ?opts = "sample_opts (Some after_case_fails)"
  let ?result = "(newInferenceResult ''app'' ''set'' ''session'' ?c)
                   \<lparr>Inferences := Some [Some sample_turn], Status := EvalStatusPassed\<rparr>"
  have h1: "SessionIDSupplier ?opts = Some (\<lambda>ctx. ''session'')"
    by (simp add: sample_opts_def)
  have h2: "runBeforeInferenceCaseCallbacks () (Callbacks ?opts) sample_req (EvalID ?c) ((\<lambda>ctx. ''session'') ())
              = ((), None)"
    by (simp add: runBeforeInferenceCaseCallbacks_def RunBeforeInferenceCase_def sample_defs)
  have h3: "inferenceEvalCase_body sample_ext () sample_req ?c ?opts ((\<lambda>ctx. ''session'') ())
              = (?result, None, [])"
    by (simp add: inferenceEvalCase_body_def Let_def EvalModeTrace_def sample_case_def sample_req_def)
  have h4: "RunAfterInferenceCase () (Callbacks ?opts)
           \<lparr>AfterInferenceCaseArgs.Request = sample_req, AfterInferenceCaseArgs.Result = ?result,
            AfterInferenceCaseArgs.Error = None, AfterInferenceCaseArgs.StartTime = time_Now sample_ext\<rparr>
         = Some ''after inference case failed''"
    by (simp add: RunAfterInferenceCase_def sample_opts_def after_case_fails_def)
  have "Status ?result = EvalStatusPassed" by simp
  with h3 after_case_error_overwrites_result [OF h1 h2 h3 h4] show ?thesis
    by (simp add: sample_req_def sample_case_def)
qed





text \<open>
  Claim C6, amended. For a trace-mode eval case with a non-empty recorded actual
  conversation the runner is never called; the case fails if a recorded turn is nil or
  has nil user content, and it fails if the expected conversation is non-empty and of
  another length. Otherwise, provided the case has a session input and neither its
  before-case nor its after-case callbacks return an error, the inferences of the result
  are the recorded actual conversation, unchanged, and the case is passed; without the
  session input, or with a callback error, the case fails with nil inferences.
\<close>

theorem trace_mode_recorded_conversation:
  assumes "SessionIDSupplier opts = Some supplier"
    and "EvalCase.EvalMode c = EvalModeTrace"
    and "ActualConversation c \<noteq> []"
    and "runBeforeInferenceCaseCallbacks ctx (Callbacks opts) req (EvalID c) (supplier ctx) = (ctx', berr)"
    and "inferenceEvalCase_body ext ctx' req c opts (supplier ctx) = (result, err, calls)"
    and "runAfterInferenceCaseCallbacks ctx' (Callbacks opts) req (EvalID c) result err (time_Now ext) = aerr"
  shows "\<exists>r log. inferenceEvalCase ext ctx req (Some c) opts = Inr (r, log)
           \<and> filter isRunnerCall log = []
           \<and> (\<not> list_all turnOK (ActualConversation c) \<longrightarrow> Status r = EvalStatusFailed)
           \<and> (Conversation c \<noteq> [] \<and> length (ActualConversation c) \<noteq> length (Conversation c)
                \<longrightarrow> Status r = EvalStatusFailed)
           \<and> (if list_all turnOK (ActualConversation c)
                  \<and> (Conversation c = [] \<or> length (ActualConversation c) = length (Conversation c))
                  \<and> EvalCase.SessionInput c \<noteq> None \<and> berr = None \<and> aerr = None
               then Inferences r = Some (ActualConversation c) \<and> Status r = EvalStatusPassed
               else Inferences r = None \<and> Status r = EvalStatusFailed)"
proof (cases berr)
  case (Some e)
  with inferenceEvalCase_before_failed [OF assms(1) assms(4) [unfolded Some]]
  show ?thesis by (simp add: newFailedInferenceResult_def)
next
  case None
  note run = inferenceEvalCase_Some [OF assms(1) assms(4) [unfolded None] assms(5)]
  have shape: "calls = [] \<and>
       (if EvalCase.SessionInput c \<noteq> None \<and> list_all turnOK (ActualConversation c)
           \<and> (Conversation c = [] \<or> length (ActualConversation c) = length (Conversation c))
        then err = None \<and> result =
               (newInferenceResult (InferenceRequest.AppName req) (InferenceRequest.EvalSetID req) (supplier ctx) c)
                 \<lparr>Inferences := Some (ActualConversation c), Status := EvalStatusPassed\<rparr>
        else err \<noteq> None)"
    using body_trace_actual [OF assms(2) assms(3), where ext = ext and ctx = ctx' and req = req
        and opts = opts and sid = "supplier ctx"] assms(5) by simp
  have failed: "err \<noteq> None \<Longrightarrow> Status result = EvalStatusFailed \<and> Inferences result = None"
    using body_shape [where ext = ext and ctx = ctx' and req = req and c = c
        and opts = opts and sid = "supplier ctx"] assms(5)
    by (auto simp: newFailedInferenceResult_def)
  show ?thesis
  proof (cases aerr)
    case (Some a)
    with run assms(6) None show ?thesis
      by (simp add: newFailedInferenceResult_def shape)
  next
    case aNone: None
    with run assms(6) None shape failed show ?thesis
      by (auto simp: newInferenceResult_def split: if_splits)
  qed
qed


lemma sample_before_quiet:
  "runBeforeInferenceCaseCallbacks () (Callbacks (sample_opts None)) sample_req evalCaseID sessionID = ((), None)"
  by (simp add: runBeforeInferenceCaseCallbacks_def RunBeforeInferenceCase_def sample_opts_def)

lemma sample_after_quiet:
  "runAfterInferenceCaseCallbacks () (Callbacks (sample_opts None)) sample_req evalCaseID result err t = None"
  by (simp add: runAfterInferenceCaseCallbacks_def RunAfterInferenceCase_def sample_opts_def)

lemma sample_supplier:
  "SessionIDSupplier (sample_opts cbs) = Some (\<lambda>ctx. ''session'')"
  by (simp add: sample_opts_def)

theorem trace_mode_recorded_conversation_witness:
  "\<exists>r log. inferenceEvalCase sample_ext () sample_req
       (Some (sample_case EvalModeTrace [Some sample_turn] (Some sample_session))) (sample_opts None)
       = Inr (r, log)
     \<and> filter isRunnerCall log = []
     \<and> Inferences r = Some [Some sample_turn] \<and> Status r = EvalStatusPassed"
proof -
  let ?c = "sample_case EvalModeTrace [Some sample_turn] (Some sample_session)"
  obtain result err calls where
    body: "inferenceEvalCase_body sample_ext () sample_req ?c (sample_opts None) ((\<lambda>ctx. ''session'') ())
             = (result, err, calls)"
    by (metis prod_cases3)
  have mode: "EvalCase.EvalMode ?c = EvalModeTrace" and actual: "ActualConversation ?c \<noteq> []"
    by (simp_all add: sample_case_def)
  from trace_mode_recorded_conversation
         [OF sample_supplier mode actual sample_before_quiet body sample_after_quiet]
  show ?thesis
    by (simp add: sample_case_def sample_turn_def)
qed

text \<open>
  The claim as stated fails: a trace-mode case whose recorded turns are all usable and
  whose lengths agree is failed when its session input is nil.
\<close>

theorem trace_mode_recorded_conversation_counterexample:
  "EvalCase.EvalMode (sample_case EvalModeTrace [Some sample_turn] None) = EvalModeTrace
   \<and> list_all turnOK (ActualConversation (sample_case EvalModeTrace [Some sample_turn] None))
   \<and> length (ActualConversation (sample_case EvalModeTrace [Some sample_turn] None))
       = length (Conversation (sample_case EvalModeTrace [Some sample_turn] None))
   \<and> map_option Status (resultOf (inferenceEvalCase sample_ext () sample_req
         (Some (sample_case EvalModeTrace [Some sample_turn] None)) (sample_opts None)))
       = Some EvalStatusFailed
   \<and> map_option ErrorMessage (resultOf (inferenceEvalCase sample_ext () sample_req
         (Some (sample_case EvalModeTrace [Some sample_turn] None)) (sample_opts None)))
       = Some ''inference eval case (evalCaseID=case-1, sessionID=session): session input is nil''"
  by (simp add: inferenceEvalCase_def inferenceEvalCase_body_def sample_before_quiet sample_after_quiet
        sample_supplier newFailedInferenceResult_def Let_def resultOf_def caseErrPrefix_def
        sample_case_def sample_turn_def)

lemma sublist_errors_Join:
  assumes "sublist p e"
  shows "sublist p (errors_Join [Some e, Some a])"
proof -
  have "errors_Join [Some e, Some a] = e @ ([CHR 0x0A] @ a)"
    by (simp add: errors_Join_def List.map_filter_def)
  moreover have "sublist e (e @ ([CHR 0x0A] @ a))"
    by (rule sublist_append_rightI)
  ultimately show ?thesis
    using assms sublist_order.order_trans by metis
qed

text \<open>
  Claim C10, amended. An eval case whose mode is not trace and whose recorded actual
  conversation is non-empty is marked failed with nil inferences, and the runner is
  never called for it. When the case has a session input and its before-case callbacks
  return no error, the error message contains "actualConversation is only supported in
  trace mode"; the nil check of the session input and the before-case callbacks come
  first and give their own message.
\<close>

theorem actual_conversation_outside_trace_mode:
  assumes "SessionIDSupplier opts = Some supplier"
    and "EvalCase.EvalMode c \<noteq> EvalModeTrace"
    and "ActualConversation c \<noteq> []"
    and "runBeforeInferenceCaseCallbacks ctx (Callbacks opts) req (EvalID c) (supplier ctx) = (ctx', berr)"
  shows "\<exists>r log. inferenceEvalCase ext ctx req (Some c) opts = Inr (r, log)
           \<and> Status r = EvalStatusFailed
           \<and> Inferences r = None
           \<and> filter isRunnerCall log = []
           \<and> (EvalCase.SessionInput c \<noteq> None \<and> berr = None \<longrightarrow>
                sublist ''actualConversation is only supported in trace mode'' (ErrorMessage r))"
proof (cases berr)
  case (Some e)
  with inferenceEvalCase_before_failed [OF assms(1) assms(4) [unfolded Some]]
  show ?thesis by (simp add: newFailedInferenceResult_def)
next
  case None
  define phrase where "phrase = ''actualConversation is only supported in trace mode''"
  define e where "e = caseErrPrefix (EvalID c) (supplier ctx) @
                (if EvalCase.SessionInput c = None then ''session input is nil'' else phrase)"
  define R where "R = newInferenceResult (InferenceRequest.AppName req) (InferenceRequest.EvalSetID req) (supplier ctx) c"
  have body: "inferenceEvalCase_body ext ctx' req c opts (supplier ctx)
                = (newFailedInferenceResult R e, Some e, [])"
    using body_nontrace_actual [OF assms(2) assms(3), where ext = ext and ctx = ctx' and req = req
        and opts = opts and sid = "supplier ctx"] by (simp add: Let_def e_def R_def phrase_def)
  note run = inferenceEvalCase_Some [OF assms(1) assms(4) [unfolded None] body]
  have in_e: "sublist phrase e" if "EvalCase.SessionInput c \<noteq> None"
    using that by (auto simp: e_def)
  show ?thesis
  proof (cases "runAfterInferenceCaseCallbacks ctx' (Callbacks opts) req (EvalID c)
                  (newFailedInferenceResult R e) (Some e) (time_Now ext)")
    case aNone: None
    with run None in_e show ?thesis
      unfolding phrase_def [symmetric] by (simp add: newFailedInferenceResult_def)
  next
    case (Some a)
    with run None sublist_errors_Join [OF in_e, of a] show ?thesis
      unfolding phrase_def [symmetric] by (simp add: newFailedInferenceResult_def)
  qed
qed


theorem actual_conversation_outside_trace_mode_witness:
  "\<exists>r log. inferenceEvalCase sample_ext () sample_req
       (Some (sample_case EvalModeDefault [Some sample_turn] (Some sample_session))) (sample_opts None)
       = Inr (r, log)
     \<and> Status r = EvalStatusFailed
     \<and> Inferences r = None
     \<and> filter isRunnerCall log = []
     \<and> sublist ''actualConversation is only supported in trace mode'' (ErrorMessage r)"
proof -
  let ?c = "sample_case EvalModeDefault [Some sample_turn] (Some sample_session)"
  have mode: "EvalCase.EvalMode ?c \<noteq> EvalModeTrace" and actual: "ActualConversation ?c \<noteq> []"
    and session: "EvalCase.SessionInput ?c \<noteq> None"
    by (simp_all add: sample_case_def EvalModeDefault_def EvalModeTrace_def)
  from actual_conversation_outside_trace_mode
         [OF sample_supplier mode actual sample_before_quiet, of sample_ext] session
  show ?thesis
    by blast
qed


text \<open>
  The claim as stated fails: with a nil session input the message is the one of the nil
  check, which comes first.
\<close>

theorem actual_conversation_outside_trace_mode_counterexample:
  "EvalCase.EvalMode (sample_case EvalModeDefault [Some sample_turn] None) \<noteq> EvalModeTrace
   \<and> ActualConversation (sample_case EvalModeDefault [Some sample_turn] None) \<noteq> []
   \<and> map_option ErrorMessage (resultOf (inferenceEvalCase sample_ext () sample_req
         (Some (sample_case EvalModeDefault [Some sample_turn] None)) (sample_opts None)))
       = Some ''inference eval case (evalCaseID=case-1, sessionID=session): session input is nil''
   \<and> \<not> sublist ''actualConversation is only supported in trace mode''
         ''inference eval case (evalCaseID=case-1, sessionID=session): session input is nil''"
proof -
  have mode: "EvalCase.EvalMode (sample_case EvalModeDefault [Some sample_turn] None) \<noteq> EvalModeTrace"
    by (simp add: sample_case_def EvalModeDefault_def EvalModeTrace_def)
  have actual: "ActualConversation (sample_case EvalModeDefault [Some sample_turn] None) \<noteq> []"
    by (simp add: sample_case_def)
  have msg: "map_option ErrorMessage (resultOf (inferenceEvalCase sample_ext () sample_req
         (Some (sample_case EvalModeDefault [Some sample_turn] None)) (sample_opts None)))
       = Some ''inference eval case (evalCaseID=case-1, sessionID=session): session input is nil''"
    by (simp add: inferenceEvalCase_def inferenceEvalCase_body_def sample_before_quiet sample_after_quiet
        sample_supplier newFailedInferenceResult_def Let_def resultOf_def caseErrPrefix_def
        sample_case_def EvalModeDefault_def EvalModeTrace_def)
  have absent: "\<not> sublist ''actualConversation is only supported in trace mode''
         ''inference eval case (evalCaseID=case-1, sessionID=session): session input is nil''"
    by code_simp
  show ?thesis
    using mode actual msg absent by (intro conjI)
qed

section \<open>The run options the runner receives\<close>






section \<open>The invariant of the parallel strategy\<close>

lemma reset_newParam [simp]: "reset p = (newParam :: 'ctx evalCaseInferenceParam)"
  by (cases p) (simp add: reset_def newParam_def)

lemma fill_taskParam:
  "got\<lparr>p_idx := i, p_ctx := Some ctx, p_req := Some req, p_evalCase := evalCases ! i,
        p_opts := Some opts, p_svc := Some (), p_results := Some (), p_wg := Some ()\<rparr>
   = taskParam ctx req evalCases opts i"
  by (cases got) (simp add: taskParam_def)

lemma batchInv_init:
  "batchInv ext ctx req evalCases opts (initBatch (length evalCases) paramPool)"
  by (simp add: batchInv_def initBatch_def settled_def inflightIdx_def)

lemma submitStep_accept:
  assumes "b_next st < length evalCases"
  shows "submitStep ctx req evalCases opts None st =
     Inr (st\<lparr>b_wg := b_wg st + 1, b_paramPool := snd (poolGet (b_paramPool st)),
              b_invoked := b_invoked st @ [None],
              b_inflight := b_inflight st @ [taskParam ctx req evalCases opts (b_next st)],
              b_next := b_next st + 1\<rparr>)"
  using assms
  by (simp add: submitStep_def Let_def fill_taskParam split: prod.split)

lemma submitStep_reject:
  assumes "b_next st < length evalCases" and "0 \<le> b_wg st"
    and "SessionIDSupplier opts = Some supplier" and "evalCases ! b_next st = Some c"
    and "length (b_results st) = length evalCases"
  shows "submitStep ctx req evalCases opts (Some err) st =
     Inr (st\<lparr>b_wg := b_wg st,
              b_invoked := b_invoked st @ [Some err],
              b_done := b_done st @ [b_next st],
              b_results := list_update (b_results st) (b_next st)
                 (Some (newFailedInferenceResult
                    (newInferenceResult (InferenceRequest.AppName req)
                       (InferenceRequest.EvalSetID req) (supplier ctx) c)
                    (''submit inference task for eval case '' @ EvalID c @ '': '' @ err))),
              b_paramPool := snd (poolGet (b_paramPool st)) @ [newParam],
              b_next := b_next st + 1\<rparr>)"
  using assms
  by (simp add: submitStep_def Let_def fill_taskParam split: prod.split)


lemma poolGet_reset:
  "poolReset pool \<Longrightarrow> poolReset (snd (poolGet pool))"
  by (auto simp: poolGet_def poolReset_def split: list.splits)

lemma p_idx_taskParam [simp]: "p_idx (taskParam ctx req evalCases opts i) = i"
  by (simp add: taskParam_def)

lemma batchInv_accept:
  assumes inv: "batchInv ext ctx req evalCases opts st"
    and step: "submitStep ctx req evalCases opts None st = Inr st'"
  shows "batchInv ext ctx req evalCases opts st'"
proof -
  have lt: "b_next st < length evalCases"
    using step by (auto simp: submitStep_def Let_def split: if_splits)
  have st': "st' = st\<lparr>b_wg := b_wg st + 1, b_paramPool := snd (poolGet (b_paramPool st)),
              b_invoked := b_invoked st @ [None],
              b_inflight := b_inflight st @ [taskParam ctx req evalCases opts (b_next st)],
              b_next := b_next st + 1\<rparr>"
    using step submitStep_accept [OF lt, of ctx req opts] by simp
  have fresh: "b_next st \<notin> inflightIdx st"
    using inv by (auto simp: batchInv_def inflightIdx_def)
  have settled': "settled st' i = settled st i" for i
    using fresh inv by (auto simp: st' settled_def inflightIdx_def batchInv_def)
  have invoked': "i < b_next st \<Longrightarrow> b_invoked st' ! i = b_invoked st ! i" for i
    using inv by (simp add: st' batchInv_def nth_append)
  have settled_lt: "settled st i \<Longrightarrow> i < b_next st" for i
    by (simp add: settled_def)
  show ?thesis
    unfolding batchInv_def
  proof (intro conjI)
    show "length (b_results st') = length evalCases"
      using inv by (simp add: st' batchInv_def)
    show "b_next st' = length (b_invoked st')"
      using inv by (simp add: st' batchInv_def)
    show "b_next st' \<le> length evalCases"
      using lt by (simp add: st')
    show "b_wg st' = int (length (b_inflight st'))"
      using inv by (simp add: st' batchInv_def)
    show "distinct (map p_idx (b_inflight st'))"
      using inv fresh by (auto simp: st' batchInv_def inflightIdx_def)
    show "\<forall>p\<in>set (b_inflight st').
       p = taskParam ctx req evalCases opts (p_idx p) \<and> p_idx p < b_next st' \<and> b_invoked st' ! p_idx p = None"
      using inv by (auto simp: st' batchInv_def nth_append)
    show "\<forall>i<length evalCases. b_results st' ! i =
       (if settled st' i then slotFor ext ctx req opts (evalCases ! i) (b_invoked st' ! i) else None)"
      using inv invoked' settled_lt unfolding settled' by (simp add: batchInv_def st')
    show "\<forall>i. settled st' i \<longrightarrow> b_results st' ! i \<noteq> None"
      using inv unfolding settled' by (simp add: batchInv_def st')
    show "\<forall>i. count_list (b_done st') i = (if settled st' i then 1 else 0)"
      using inv unfolding settled' by (simp add: batchInv_def st')
  qed
qed


lemma batchInv_reject:
  assumes inv: "batchInv ext ctx req evalCases opts st"
    and step: "submitStep ctx req evalCases opts (Some err) st = Inr st'"
  shows "batchInv ext ctx req evalCases opts st'"
proof -
  have lt: "b_next st < length evalCases"
    using step by (auto simp: submitStep_def Let_def split: if_splits)
  have wg: "0 \<le> b_wg st" and len: "length (b_results st) = length evalCases"
    using inv by (simp_all add: batchInv_def)
  obtain supplier where sup: "SessionIDSupplier opts = Some supplier"
    using step lt by (cases "SessionIDSupplier opts")
      (auto simp: submitStep_def Let_def split: prod.splits if_splits)
  obtain c where c: "evalCases ! b_next st = Some c"
    using step lt sup by (cases "evalCases ! b_next st")
      (auto simp: submitStep_def Let_def split: prod.splits if_splits)
  let ?slot = "Some (newFailedInferenceResult
                    (newInferenceResult (InferenceRequest.AppName req)
                       (InferenceRequest.EvalSetID req) (supplier ctx) c)
                    (''submit inference task for eval case '' @ EvalID c @ '': '' @ err))"
  have st': "st' = st\<lparr>b_wg := b_wg st,
              b_invoked := b_invoked st @ [Some err],
              b_done := b_done st @ [b_next st],
              b_results := list_update (b_results st) (b_next st) ?slot,
              b_paramPool := snd (poolGet (b_paramPool st)) @ [newParam],
              b_next := b_next st + 1\<rparr>"
    using step submitStep_reject [OF lt wg sup c len, of ctx req err] by simp
  have slot: "slotFor ext ctx req opts (evalCases ! b_next st) (Some err) = ?slot"
    by (simp add: slotFor_def sup c)
  have fresh: "b_next st \<notin> inflightIdx st"
    using inv by (auto simp: batchInv_def inflightIdx_def)
  have settled': "settled st' i = (settled st i \<or> i = b_next st)" for i
    using fresh by (auto simp: st' settled_def inflightIdx_def)
  have invoked': "i < b_next st \<Longrightarrow> b_invoked st' ! i = b_invoked st ! i" for i
    using inv by (simp add: st' batchInv_def nth_append)
  have invoked_next: "b_invoked st' ! b_next st = Some err"
    using inv by (simp add: st' batchInv_def nth_append)
  have settled_lt: "settled st i \<Longrightarrow> i < b_next st" for i
    by (simp add: settled_def)
  have unsettled: "\<not> settled st (b_next st)"
    by (simp add: settled_def)
  show ?thesis
    unfolding batchInv_def
  proof (intro conjI)
    show "length (b_results st') = length evalCases"
      using inv by (simp add: st' batchInv_def)
    show "b_next st' = length (b_invoked st')"
      using inv by (simp add: st' batchInv_def)
    show "b_next st' \<le> length evalCases"
      using lt by (simp add: st')
    show "b_wg st' = int (length (b_inflight st'))"
      using inv by (simp add: st' batchInv_def)
    show "distinct (map p_idx (b_inflight st'))"
      using inv by (simp add: st' batchInv_def)
    show "\<forall>p\<in>set (b_inflight st').
       p = taskParam ctx req evalCases opts (p_idx p) \<and> p_idx p < b_next st' \<and> b_invoked st' ! p_idx p = None"
      using inv by (auto simp: st' batchInv_def nth_append)
    show "\<forall>i<length evalCases. b_results st' ! i =
       (if settled st' i then slotFor ext ctx req opts (evalCases ! i) (b_invoked st' ! i) else None)"
    proof (intro allI impI)
      fix i assume i: "i < length evalCases"
      show "b_results st' ! i =
         (if settled st' i then slotFor ext ctx req opts (evalCases ! i) (b_invoked st' ! i) else None)"
      proof (cases "i = b_next st")
        case True
        have "settled st' i"
          using True by (simp add: settled')
        moreover have "b_results st' ! i = ?slot"
          using True len lt by (simp add: st')
        ultimately show ?thesis
          using True slot invoked_next by simp
      next
        case False
        have "b_results st' ! i = b_results st ! i"
          using False by (simp add: st')
        moreover have "b_results st ! i =
            (if settled st i then slotFor ext ctx req opts (evalCases ! i) (b_invoked st ! i) else None)"
          using inv i by (simp add: batchInv_def)
        ultimately show ?thesis
          using False invoked' [of i] settled_lt [of i] by (simp add: settled')
      qed
    qed
    show "\<forall>i. settled st' i \<longrightarrow> b_results st' ! i \<noteq> None"
    proof (intro allI impI)
      fix j assume "settled st' j"
      then consider "j = b_next st" | "j \<noteq> b_next st" "settled st j"
        by (auto simp: settled')
      then show "b_results st' ! j \<noteq> None"
      proof cases
        case 1
        then show ?thesis using len lt by (simp add: st')
      next
        case 2
        then show ?thesis using inv by (simp add: st' batchInv_def)
      qed
    qed
    show "\<forall>i. count_list (b_done st') i = (if settled st' i then 1 else 0)"
      using inv unsettled unfolding settled' by (auto simp: batchInv_def st')
  qed
qed


lemma length_filter_idx:
  assumes "distinct (map p_idx ps)" and "i \<in> p_idx ` set ps"
  shows "int (length (filter (\<lambda>p. p_idx p \<noteq> i) ps)) = int (length ps) - 1"
  using assms
proof (induction ps)
  case Nil
  then show ?case by simp
next
  case (Cons p ps)
  show ?case
  proof (cases "p_idx p = i")
    case True
    then have "i \<notin> p_idx ` set ps"
      using Cons.prems(1) by auto
    then have "filter (\<lambda>p. p_idx p \<noteq> i) ps = ps"
      by (auto simp: filter_id_conv)
    with True show ?thesis by simp
  next
    case False
    with Cons show ?thesis by auto
  qed
qed

lemma finishStep_run:
  assumes inv: "batchInv ext ctx req evalCases opts st"
    and step: "finishStep ext i st = Inr st'"
  shows "\<exists>r log. i \<in> inflightIdx st
           \<and> inferenceEvalCase ext ctx req (evalCases ! i) opts = Inr (r, log)
           \<and> st' = st\<lparr>b_inflight := filter (\<lambda>p. p_idx p \<noteq> i) (b_inflight st),
                       b_results := list_update (b_results st) i (Some r),
                       b_log := b_log st @ log,
                       b_wg := b_wg st - 1,
                       b_done := b_done st @ [i],
                       b_paramPool := b_paramPool st @ [newParam]\<rparr>"
proof -
  obtain param where found: "find (\<lambda>p. p_idx p = i) (b_inflight st) = Some param"
    using step by (cases "find (\<lambda>p. p_idx p = i) (b_inflight st)") (simp_all add: finishStep_def)
  then have mem: "param \<in> set (b_inflight st)" and idx: "p_idx param = i"
    by (auto simp: find_Some_iff)
  have param: "param = taskParam ctx req evalCases opts i" and lt: "i < b_next st"
    using inv mem idx by (auto simp: batchInv_def)
  have in_range: "i < length (b_results st)" and wg: "0 < b_wg st"
    using inv lt mem by (auto simp: batchInv_def length_pos_if_in_set)
  let ?st0 = "st\<lparr>b_inflight := filter (\<lambda>p. p_idx p \<noteq> i) (b_inflight st)\<rparr>"
  have task: "workerTask ext (taskParam ctx req evalCases opts i) ?st0 = Inr st'"
    using step found param by (simp add: finishStep_def)
  obtain r log where run: "inferenceEvalCase ext ctx req (evalCases ! i) opts = Inr (r, log)"
    using task by (cases "inferenceEvalCase ext ctx req (evalCases ! i) opts")
      (auto simp: workerTask_def taskParam_def)
  have "st' = ?st0\<lparr>b_results := list_update (b_results st) i (Some r),
                       b_log := b_log st @ log,
                       b_wg := b_wg st - 1,
                       b_done := b_done st @ [i],
                       b_paramPool := b_paramPool st @ [newParam]\<rparr>"
    using task run in_range wg by (simp add: workerTask_def taskParam_def)
  with mem idx run show ?thesis
    by (auto simp: inflightIdx_def)
qed

lemma batchInv_finish:
  assumes inv: "batchInv ext ctx req evalCases opts st"
    and step: "finishStep ext i st = Inr st'"
  shows "batchInv ext ctx req evalCases opts st'"
proof -
  obtain r log where mem: "i \<in> inflightIdx st"
    and run: "inferenceEvalCase ext ctx req (evalCases ! i) opts = Inr (r, log)"
    and st': "st' = st\<lparr>b_inflight := filter (\<lambda>p. p_idx p \<noteq> i) (b_inflight st),
                       b_results := list_update (b_results st) i (Some r),
                       b_log := b_log st @ log,
                       b_wg := b_wg st - 1,
                       b_done := b_done st @ [i],
                       b_paramPool := b_paramPool st @ [newParam]\<rparr>"
    using finishStep_run [OF inv step] by blast
  have lt: "i < b_next st" and accepted: "b_invoked st ! i = None"
    using inv mem by (auto simp: batchInv_def inflightIdx_def)
  have len: "length (b_results st) = length evalCases" and next_le: "b_next st \<le> length evalCases"
    using inv by (simp_all add: batchInv_def)
  have idx': "inflightIdx st' = inflightIdx st - {i}"
    by (auto simp: st' inflightIdx_def)
  have settled': "settled st' j = (settled st j \<or> j = i)" for j
    using lt mem by (auto simp: settled_def idx') (simp add: st')+
  have unsettled: "\<not> settled st i"
    using mem by (simp add: settled_def)
  have slot: "slotFor ext ctx req opts (evalCases ! i) (b_invoked st ! i) = Some r"
    by (simp add: slotFor_def accepted run resultOf_def)
  show ?thesis
    unfolding batchInv_def
  proof (intro conjI)
    show "length (b_results st') = length evalCases"
      using inv by (simp add: st' batchInv_def)
    show "b_next st' = length (b_invoked st')"
      using inv by (simp add: st' batchInv_def)
    show "b_next st' \<le> length evalCases"
      using inv by (simp add: st' batchInv_def)
    show "b_wg st' = int (length (b_inflight st'))"
      using inv mem length_filter_idx [of "b_inflight st" i]
      by (simp add: st' batchInv_def inflightIdx_def)
    show "distinct (map p_idx (b_inflight st'))"
      using inv by (simp add: st' batchInv_def distinct_map_filter)
    show "\<forall>p\<in>set (b_inflight st').
       p = taskParam ctx req evalCases opts (p_idx p) \<and> p_idx p < b_next st' \<and> b_invoked st' ! p_idx p = None"
      using inv by (auto simp: st' batchInv_def)
    show "\<forall>j<length evalCases. b_results st' ! j =
       (if settled st' j then slotFor ext ctx req opts (evalCases ! j) (b_invoked st' ! j) else None)"
    proof (intro allI impI)
      fix j assume j: "j < length evalCases"
      have old: "b_results st ! j =
            (if settled st j then slotFor ext ctx req opts (evalCases ! j) (b_invoked st ! j) else None)"
        using inv j by (simp add: batchInv_def)
      have same: "b_invoked st' = b_invoked st"
        by (simp add: st')
      show "b_results st' ! j =
         (if settled st' j then slotFor ext ctx req opts (evalCases ! j) (b_invoked st' ! j) else None)"
      proof (cases "j = i")
        case True
        have "b_results st' ! j = Some r"
          using True len j by (simp add: st')
        then show ?thesis
          using True slot by (simp add: settled' same)
      next
        case False
        have "b_results st' ! j = b_results st ! j"
          using False by (simp add: st')
        then show ?thesis
          using False old by (simp add: settled' same)
      qed
    qed
    show "\<forall>j. settled st' j \<longrightarrow> b_results st' ! j \<noteq> None"
    proof (intro allI impI)
      fix j assume "settled st' j"
      then consider "j = i" | "j \<noteq> i" "settled st j"
        by (auto simp: settled')
      then show "b_results st' ! j \<noteq> None"
      proof cases
        case 1
        then show ?thesis using len lt next_le by (simp add: st')
      next
        case 2
        then show ?thesis using inv by (simp add: st' batchInv_def)
      qed
    qed
    have "count_list (b_done st') j = (if settled st' j then 1 else 0)" for j
    proof -
      have "count_list (b_done st) j = (if settled st j then 1 else 0)"
        using inv by (simp add: batchInv_def)
      moreover have "b_done st' = b_done st @ [i]"
        by (simp add: st')
      ultimately show ?thesis
        using unsettled by (auto simp: settled')
    qed
    then show "\<forall>i. count_list (b_done st') i = (if settled st' i then 1 else 0)"
      by blast
  qed
qed

lemma batchInv_step:
  assumes "batchInv ext ctx req evalCases opts st"
    and "step ext ctx req evalCases opts a st = Inr st'"
  shows "batchInv ext ctx req evalCases opts st'"
proof (cases a)
  case (Submit answer)
  with assms show ?thesis
    by (cases answer) (auto intro: batchInv_accept batchInv_reject)
next
  case (Finish i)
  with assms show ?thesis
    by (auto intro: batchInv_finish)
qed

lemma batchInv_exec:
  assumes "batchInv ext ctx req evalCases opts st"
    and "exec ext ctx req evalCases opts sched st = Inr st'"
  shows "batchInv ext ctx req evalCases opts st'"
  using assms
proof (induction sched arbitrary: st)
  case Nil
  then show ?case by simp
next
  case (Cons a sched)
  then show ?case
    by (cases "step ext ctx req evalCases opts a st") (auto intro: batchInv_step)
qed

section \<open>Runs of the parallel strategy\<close>

lemma step_invoked:
  assumes "step ext ctx req evalCases opts a st = Inr st'"
  shows "b_invoked st' = b_invoked st @ answers [a]"
proof (cases a)
  case (Submit answer)
  with assms show ?thesis
    by (cases answer)
       (auto simp: submitStep_def Let_def split: prod.splits if_splits option.splits)
next
  case (Finish i)
  with assms show ?thesis
    by (auto simp: finishStep_def workerTask_def split: option.splits sum.splits prod.splits if_splits)
qed

lemma answers_Cons: "answers (a # sched) = answers [a] @ answers sched"
  by (cases a) simp_all

lemma exec_invoked:
  assumes "exec ext ctx req evalCases opts sched st = Inr st'"
  shows "b_invoked st' = b_invoked st @ answers sched"
  using assms
proof (induction sched arbitrary: st)
  case Nil
  then show ?case by simp
next
  case (Cons a sched)
  then obtain st1 where a: "step ext ctx req evalCases opts a st = Inr st1"
    and rest: "exec ext ctx req evalCases opts sched st1 = Inr st'"
    by (cases "step ext ctx req evalCases opts a st") auto
  from Cons.IH [OF rest] step_invoked [OF a] show ?case
    by (simp add: answers_Cons [of a sched])
qed

lemma inferenceEvalCase_returns:
  assumes "SessionIDSupplier opts = Some supplier"
  shows "\<exists>r log. inferenceEvalCase ext ctx req evalCase opts = Inr (r, log)"
  using assms
  by (simp add: inferenceEvalCase_def Let_def split: option.split prod.split)


lemma submit_enabled:
  assumes inv: "batchInv ext ctx req evalCases opts st"
    and lt: "b_next st < length evalCases"
    and sup: "SessionIDSupplier opts = Some supplier"
    and cases: "list_all (\<lambda>c. c \<noteq> None) evalCases"
  shows "\<exists>st'. step ext ctx req evalCases opts (Submit answer) st = Inr st' \<and> b_next st' = b_next st + 1"
proof (cases answer)
  case None
  then show ?thesis
    using submitStep_accept [OF lt, of ctx req opts] by simp
next
  case (Some err)
  have wg: "0 \<le> b_wg st" and len: "length (b_results st) = length evalCases"
    using inv by (simp_all add: batchInv_def)
  obtain c where c: "evalCases ! b_next st = Some c"
    using cases lt by (cases "evalCases ! b_next st") (auto simp: list_all_length)
  show ?thesis
    using submitStep_reject [OF lt wg sup c len, of ctx req err] Some by simp
qed

lemma finish_enabled:
  assumes inv: "batchInv ext ctx req evalCases opts st"
    and mem: "p \<in> set (b_inflight st)"
    and sup: "SessionIDSupplier opts = Some supplier"
  shows "\<exists>st'. step ext ctx req evalCases opts (Finish (p_idx p)) st = Inr st'
           \<and> b_next st' = b_next st \<and> length (b_inflight st') < length (b_inflight st)"
proof -
  let ?i = "p_idx p"
  obtain q where found: "find (\<lambda>p. p_idx p = ?i) (b_inflight st) = Some q"
    using mem by (cases "find (\<lambda>p. p_idx p = ?i) (b_inflight st)") (auto simp: find_None_iff)
  then have q: "q \<in> set (b_inflight st)" "p_idx q = ?i"
    by (auto simp: find_Some_iff)
  have param: "q = taskParam ctx req evalCases opts ?i" and lt: "?i < b_next st"
    using inv q by (auto simp: batchInv_def)
  have in_range: "?i < length (b_results st)" and wg: "0 < b_wg st"
    using inv lt mem by (auto simp: batchInv_def length_pos_if_in_set)
  obtain r log where run: "inferenceEvalCase ext ctx req (evalCases ! ?i) opts = Inr (r, log)"
    using inferenceEvalCase_returns [OF sup] by blast
  have shorter: "length (filter (\<lambda>q. p_idx q \<noteq> ?i) (b_inflight st)) < length (b_inflight st)"
    using mem by (intro length_filter_less [of p]) auto
  show ?thesis
    using found param run in_range wg shorter
    by (simp add: finishStep_def workerTask_def taskParam_def)
qed

lemma drain:
  assumes "batchInv ext ctx req evalCases opts st"
    and "SessionIDSupplier opts = Some supplier"
  shows "\<exists>sched st'. answers sched = [] \<and> exec ext ctx req evalCases opts sched st = Inr st'
           \<and> b_next st' = b_next st \<and> b_wg st' = 0"
  using assms
proof (induction "length (b_inflight st)" arbitrary: st rule: less_induct)
  case less
  show ?case
  proof (cases "b_inflight st")
    case Nil
    then have "b_wg st = 0"
      using less.prems(1) by (simp add: batchInv_def)
    then have "answers [] = [] \<and> exec ext ctx req evalCases opts [] st = Inr st
        \<and> b_next st = b_next st \<and> b_wg st = 0"
      by simp
    then show ?thesis by blast
  next
    case (Cons p ps)
    then have mem: "p \<in> set (b_inflight st)" by simp
    obtain st1 where a: "step ext ctx req evalCases opts (Finish (p_idx p)) st = Inr st1"
      and next1: "b_next st1 = b_next st"
      and shorter: "length (b_inflight st1) < length (b_inflight st)"
      using finish_enabled [OF less.prems(1) mem less.prems(2)] by blast
    have inv1: "batchInv ext ctx req evalCases opts st1"
      using batchInv_step [OF less.prems(1) a] .
    obtain sched st' where "answers sched = []"
      and "exec ext ctx req evalCases opts sched st1 = Inr st'"
      and "b_next st' = b_next st1" and "b_wg st' = 0"
      using less.hyps [OF shorter inv1 less.prems(2)] by blast
    then have "answers (Finish (p_idx p) # sched) = []
        \<and> exec ext ctx req evalCases opts (Finish (p_idx p) # sched) st = Inr st'
        \<and> b_next st' = b_next st \<and> b_wg st' = 0"
      using a next1 by simp
    then show ?thesis by blast
  qed
qed

lemma complete:
  assumes "batchInv ext ctx req evalCases opts st"
    and "SessionIDSupplier opts = Some supplier"
    and "list_all (\<lambda>c. c \<noteq> None) evalCases"
    and "b_next st + length as = length evalCases"
  shows "\<exists>sched st'. answers sched = as \<and> exec ext ctx req evalCases opts sched st = Inr st'
           \<and> b_next st' = length evalCases \<and> b_wg st' = 0"
  using assms
proof (induction as arbitrary: st)
  case Nil
  then show ?case
    using drain [OF Nil.prems(1) Nil.prems(2)] by auto
next
  case (Cons a as)
  have lt: "b_next st < length evalCases"
    using Cons.prems(4) by simp
  obtain st1 where a: "step ext ctx req evalCases opts (Submit a) st = Inr st1"
    and next1: "b_next st1 = b_next st + 1"
    using submit_enabled [OF Cons.prems(1) lt Cons.prems(2) Cons.prems(3)] by blast
  have inv1: "batchInv ext ctx req evalCases opts st1"
    using batchInv_step [OF Cons.prems(1) a] .
  have "b_next st1 + length as = length evalCases"
    using next1 Cons.prems(4) by simp
  from Cons.IH [OF inv1 Cons.prems(2) Cons.prems(3) this]
  obtain sched st' where "answers sched = as"
    and "exec ext ctx req evalCases opts sched st1 = Inr st'"
    and "b_next st' = length evalCases" and "b_wg st' = 0"
    by blast
  then have "answers (Submit a # sched) = a # as
      \<and> exec ext ctx req evalCases opts (Submit a # sched) st = Inr st'
      \<and> b_next st' = length evalCases \<and> b_wg st' = 0"
    using a by simp
  then show ?case by blast
qed

lemma poolReset_step:
  assumes inv: "batchInv ext ctx req evalCases opts st"
    and pool: "poolReset (b_paramPool st)"
    and step: "step ext ctx req evalCases opts a st = Inr st'"
  shows "poolReset (b_paramPool st')"
proof (cases a)
  case (Submit answer)
  have lt: "b_next st < length evalCases"
    using step Submit by (auto simp: submitStep_def Let_def split: if_splits)
  show ?thesis
  proof (cases answer)
    case None
    with step Submit submitStep_accept [OF lt, of ctx req opts] poolGet_reset [OF pool]
    show ?thesis by auto
  next
    case (Some err)
    have "poolReset (snd (poolGet (b_paramPool st)) @ [reset p])" for p :: "'a evalCaseInferenceParam"
      using poolGet_reset [OF pool] by (simp add: poolReset_def)
    with step Submit Some show ?thesis
      by (auto simp: submitStep_def Let_def split: prod.splits if_splits option.splits)
  qed
next
  case (Finish i)
  with finishStep_run [OF inv, of i st'] step pool show ?thesis
    by (auto simp: poolReset_def)
qed

lemma poolReset_exec:
  assumes "batchInv ext ctx req evalCases opts st"
    and "poolReset (b_paramPool st)"
    and "exec ext ctx req evalCases opts sched st = Inr st'"
  shows "poolReset (b_paramPool st')"
  using assms
proof (induction sched arbitrary: st)
  case Nil
  then show ?case by simp
next
  case (Cons a sched)
  then obtain st1 where a: "step ext ctx req evalCases opts a st = Inr st1"
    and rest: "exec ext ctx req evalCases opts sched st1 = Inr st'"
    by (cases "step ext ctx req evalCases opts a st") auto
  from Cons.IH [OF batchInv_step [OF Cons.prems(1) a] poolReset_step [OF Cons.prems(1,2) a] rest]
  show ?case .
qed

lemma parallel_run:
  assumes "inferEvalCasesParallel ext s ctx req evalCases opts paramPool sched = Inr (s1, Some rs, None, st)"
  shows "length rs = length evalCases
       \<and> (\<forall>i < length evalCases.
             rs ! i \<noteq> None \<and> rs ! i = slotFor ext ctx req opts (evalCases ! i) (answers sched ! i))"
proof (cases "ensureEvalCaseInferencePool ext s (EvalCaseParallelism opts)")
  case (fields s' pool err)
  show ?thesis
  proof (cases err)
    case (Some e)
    with assms fields show ?thesis
      by (simp add: inferEvalCasesParallel_def split: option.splits)
  next
    case None
    show ?thesis
    proof (cases pool)
      case pNone: None
      with assms fields None show ?thesis
        by (auto simp: inferEvalCasesParallel_def split: if_splits list.splits action.splits)
    next
      case (Some p)
      with assms fields None
      have run: "exec ext ctx req evalCases opts sched (initBatch (length evalCases) paramPool) = Inr st"
        and fin: "b_next st = length evalCases" "b_wg st = 0" and rs: "rs = b_results st"
        by (auto simp: inferEvalCasesParallel_def split: sum.splits if_splits)
      have inv: "batchInv ext ctx req evalCases opts st"
        using batchInv_exec [OF batchInv_init run] .
      have invoked: "b_invoked st = answers sched"
        using exec_invoked [OF run] by (simp add: initBatch_def)
      have "b_inflight st = []"
        using inv fin by (simp add: batchInv_def)
      then have settled: "settled st i" if "i < length evalCases" for i
        using that fin by (simp add: settled_def inflightIdx_def)
      have "length rs = length evalCases"
        using inv rs by (simp add: batchInv_def)
      moreover have "rs ! i \<noteq> None
          \<and> rs ! i = slotFor ext ctx req opts (evalCases ! i) (answers sched ! i)"
        if "i < length evalCases" for i
      proof -
        have "b_results st ! i =
            (if settled st i then slotFor ext ctx req opts (evalCases ! i) (b_invoked st ! i) else None)"
          using inv that by (simp add: batchInv_def)
        moreover have "b_results st ! i \<noteq> None"
          using inv settled [OF that] by (simp add: batchInv_def)
        ultimately show ?thesis
          using settled [OF that] invoked rs by simp
      qed
      ultimately show ?thesis by blast
    qed
  qed
qed

lemma parallel_returns:
  assumes sup: "SessionIDSupplier opts = Some supplier"
    and cases: "list_all (\<lambda>c. c \<noteq> None) evalCases"
    and pool: "ensureEvalCaseInferencePool ext s (EvalCaseParallelism opts) = (s1, Some pool, None)"
    and len: "length as = length evalCases"
  shows "\<exists>sched st. answers sched = as
           \<and> inferEvalCasesParallel ext s ctx req evalCases opts paramPool sched
               = Inr (s1, Some (b_results st), None, st)"
proof -
  let ?init = "initBatch (length evalCases) paramPool :: 'a batch"
  have "b_next ?init + length as = length evalCases"
    using len by (simp add: initBatch_def)
  from complete [OF batchInv_init sup cases this]
  obtain sched st where "answers sched = as"
    and "exec ext ctx req evalCases opts sched ?init = Inr st"
    and "b_next st = length evalCases" and "b_wg st = 0"
    by blast
  then have "answers sched = as
           \<and> inferEvalCasesParallel ext s ctx req evalCases opts paramPool sched
               = Inr (s1, Some (b_results st), None, st)"
    using pool by (simp add: inferEvalCasesParallel_def)
  then show ?thesis by blast
qed

section \<open>A sample run of the parallel strategy\<close>

lemma sample_pool:
  "ensureEvalCaseInferencePool sample_ext sample_service (EvalCaseParallelism parallel_opts)
     = (sample_service\<lparr>evalCaseInferencePoolOnce := True, evalCaseInferencePool := Some (PoolWithFunc 2)\<rparr>,
        Some (PoolWithFunc 2), None)"
  by (simp add: ensureEvalCaseInferencePool_def createEvalCaseInferencePool_def sample_service_def
        parallel_opts_def sample_opts_def sample_ext_def Let_def)

lemma sample_cases_nonnil: "list_all (\<lambda>c. c \<noteq> None) sample_cases"
  by (simp add: sample_cases_def)

lemma parallel_supplier: "SessionIDSupplier parallel_opts = Some (\<lambda>ctx. ''session'')"
  by (simp add: parallel_opts_def sample_opts_def)

lemma sample_case_results:
  "statuses [resultOf (inferenceEvalCase sample_ext () sample_req (sample_cases ! 0) parallel_opts),
             resultOf (inferenceEvalCase sample_ext () sample_req (sample_cases ! 1) parallel_opts)]
     = [Some EvalStatusPassed, Some EvalStatusFailed]"
  by (simp add: statuses_def resultOf_def inferenceEvalCase_def inferenceEvalCase_body_def
        runBeforeInferenceCaseCallbacks_def RunBeforeInferenceCase_def
        runAfterInferenceCaseCallbacks_def RunAfterInferenceCase_def
        newFailedInferenceResult_def Let_def parallel_opts_def sample_opts_def sample_cases_def
        sample_case_def EvalModeTrace_def)


lemma sample_case_runs:
  "\<exists>r log. inferenceEvalCase sample_ext () sample_req c parallel_opts = Inr (r, log)"
  using inferenceEvalCase_returns [OF parallel_supplier] .

lemma out_of_order_run:
  "\<exists>st. exec sample_ext () sample_req sample_cases parallel_opts
          [Submit None, Submit None, Finish 1, Finish 0] (initBatch 2 [])
        = Inr st \<and> b_next st = 2 \<and> b_wg st = 0"
proof -
  obtain r0 log0 where r0: "inferenceEvalCase sample_ext () sample_req (sample_cases ! 0) parallel_opts = Inr (r0, log0)"
    using sample_case_runs by blast
  obtain r1 log1 where r1: "inferenceEvalCase sample_ext () sample_req (sample_cases ! 1) parallel_opts = Inr (r1, log1)"
    using sample_case_runs by blast
  have len: "length sample_cases = 2"
    by (simp add: sample_cases_def)
  show ?thesis
    using r0 r1 len
    by (simp add: initBatch_def submitStep_def finishStep_def workerTask_def poolGet_def Let_def
          taskParam_def)
qed


lemma list_of_two:
  assumes "length xs = 2"
  shows "xs = [xs ! 0, xs ! 1]"
  using assms by (auto simp: length_Suc_conv numeral_2_eq_2)

lemma out_of_order_returns:
  assumes "ensureEvalCaseInferencePool sample_ext s (EvalCaseParallelism parallel_opts) = (s1, Some pool, None)"
  shows "\<exists>st. inferEvalCasesParallel sample_ext s () sample_req sample_cases parallel_opts []
          [Submit None, Submit None, Finish 1, Finish 0]
        = Inr (s1, Some (b_results st), None, st)"
proof -
  have len: "length sample_cases = 2"
    by (simp add: sample_cases_def)
  from out_of_order_run obtain st where
    "exec sample_ext () sample_req sample_cases parallel_opts
          [Submit None, Submit None, Finish 1, Finish 0] (initBatch 2 []) = Inr st"
    and "b_next st = 2" and "b_wg st = 0"
    by blast
  then have "inferEvalCasesParallel sample_ext s () sample_req sample_cases parallel_opts []
          [Submit None, Submit None, Finish 1, Finish 0]
        = Inr (s1, Some (b_results st), None, st)"
    unfolding inferEvalCasesParallel_def assms len by simp
  then show ?thesis by blast
qed


section \<open>Serial and parallel strategy compared\<close>

lemma serial_results:
  assumes "\<forall>c \<in> set evalCases. \<exists>r log. inferenceEvalCase ext ctx req c opts = Inr (r, log)"
  shows "\<exists>log. inferEvalCasesSerial ext ctx req evalCases opts =
           Inr (map (\<lambda>c. resultOf (inferenceEvalCase ext ctx req c opts)) evalCases, log)"
  using assms
proof (induction evalCases)
  case Nil
  then show ?case by simp
next
  case (Cons c evalCases)
  obtain r log where c: "inferenceEvalCase ext ctx req c opts = Inr (r, log)"
    using Cons.prems by auto
  obtain logs where rest: "inferEvalCasesSerial ext ctx req evalCases opts =
           Inr (map (\<lambda>c. resultOf (inferenceEvalCase ext ctx req c opts)) evalCases, logs)"
    using Cons by auto
  show ?case
    by (simp add: c rest resultOf_def)
qed

text \<open>
  Claim C2, amended. When the worker pool takes every submission, the parallel strategy
  and the serial strategy give the same results array for the same request, cases and
  options: the same result, and so the same status, at every index.
\<close>

theorem serial_and_parallel_agree_when_pool_accepts:
  assumes "inferEvalCasesParallel ext s ctx req evalCases opts paramPool sched = Inr (s1, Some rs, None, st)"
    and "list_all (\<lambda>answer. answer = None) (answers sched)"
  shows "\<exists>log. inferEvalCasesSerial ext ctx req evalCases opts = Inr (rs, log)"
proof -
  note run = parallel_run [OF assms(1)]
  have len: "length rs = length evalCases"
    using run by simp
  have slot: "rs ! i \<noteq> None \<and> rs ! i = resultOf (inferenceEvalCase ext ctx req (evalCases ! i) opts)"
    if "i < length evalCases" for i
  proof -
    have "rs ! i \<noteq> None \<and> rs ! i = slotFor ext ctx req opts (evalCases ! i) (answers sched ! i)"
      using run that by blast
    moreover have "slotFor ext ctx req opts (evalCases ! i) (answers sched ! i)
        = resultOf (inferenceEvalCase ext ctx req (evalCases ! i) opts)"
    proof (cases "i < length (answers sched)")
      case True
      then have "answers sched ! i = None"
        using assms(2) by (simp add: list_all_length)
      then show ?thesis by (simp add: slotFor_def)
    next
      case False
      have "length (answers sched) = length evalCases"
      proof (cases "evalCases = []")
        case True
        with that show ?thesis by simp
      next
        case nonempty: False
        then have run: "exec ext ctx req evalCases opts sched (initBatch (length evalCases) paramPool) = Inr st"
          and fin: "b_next st = length evalCases"
          using assms(1)
          by (auto simp: inferEvalCasesParallel_def
                split: prod.splits option.splits sum.splits if_splits list.splits action.splits)
        have inv0: "batchInv ext ctx req evalCases opts (initBatch (length evalCases) paramPool)"
          by (rule batchInv_init)
        have "b_next st = length (b_invoked st)"
          using batchInv_exec [OF inv0 run] by (simp add: batchInv_def)
        moreover have "b_invoked st = answers sched"
          using exec_invoked [OF run] by (simp add: initBatch_def)
        ultimately show ?thesis
          using fin by simp
      qed
      with False that show ?thesis by simp
    qed
    ultimately show ?thesis by metis
  qed
  have "\<forall>c \<in> set evalCases. \<exists>r log. inferenceEvalCase ext ctx req c opts = Inr (r, log)"
  proof
    fix c assume "c \<in> set evalCases"
    then obtain i where i: "i < length evalCases" and c: "c = evalCases ! i"
      by (auto simp: in_set_conv_nth)
    from slot [OF i] show "\<exists>r log. inferenceEvalCase ext ctx req c opts = Inr (r, log)"
      unfolding c by (cases "inferenceEvalCase ext ctx req (evalCases ! i) opts") (auto simp: resultOf_def)
  qed
  from serial_results [OF this] obtain log where
    serial: "inferEvalCasesSerial ext ctx req evalCases opts =
           Inr (map (\<lambda>c. resultOf (inferenceEvalCase ext ctx req c opts)) evalCases, log)"
    by blast
  have "rs = map (\<lambda>c. resultOf (inferenceEvalCase ext ctx req c opts)) evalCases"
    using len slot by (simp add: list_eq_iff_nth_eq)
  with serial show ?thesis by simp
qed


theorem serial_and_parallel_agree_when_pool_accepts_witness:
  "\<exists>st log.
     inferEvalCasesParallel sample_ext sample_service () sample_req sample_cases parallel_opts []
          [Submit None, Submit None, Finish 1, Finish 0]
        = Inr (sample_service\<lparr>evalCaseInferencePoolOnce := True,
                                evalCaseInferencePool := Some (PoolWithFunc 2)\<rparr>,
               Some (b_results st), None, st)
     \<and> inferEvalCasesSerial sample_ext () sample_req sample_cases parallel_opts = Inr (b_results st, log)"
proof -
  from out_of_order_returns [OF sample_pool] obtain st where
    run: "inferEvalCasesParallel sample_ext sample_service () sample_req sample_cases parallel_opts []
          [Submit None, Submit None, Finish 1, Finish 0]
        = Inr (sample_service\<lparr>evalCaseInferencePoolOnce := True,
                                evalCaseInferencePool := Some (PoolWithFunc 2)\<rparr>,
               Some (b_results st), None, st)"
    by blast
  have accepted: "list_all (\<lambda>answer. answer = None) (answers [Submit None, Submit None, Finish 1, Finish 0])"
    by simp
  from serial_and_parallel_agree_when_pool_accepts [OF run accepted] run
  show ?thesis by blast
qed

text \<open>
  The claim as stated fails: when the pool rejects the submissions (a closed pool), the
  parallel strategy marks failed a case the serial strategy passes.
\<close>

theorem serial_and_parallel_counterexample:
  "statuses (serialResults (inferEvalCasesSerial sample_ext () sample_req sample_cases parallel_opts))
     = [Some EvalStatusPassed, Some EvalStatusFailed]
   \<and> statuses (parallelResults
         (inferEvalCasesParallel sample_ext sample_service () sample_req sample_cases parallel_opts []
            [Submit (Some ''pool closed''), Submit (Some ''pool closed'')]))
     = [Some EvalStatusFailed, Some EvalStatusFailed]"
proof -
  have len: "length sample_cases = 2"
    by (simp add: sample_cases_def)
  have c0: "sample_cases ! 0 = Some (sample_case EvalModeTrace [] (Some sample_session))"
    and c1: "sample_cases ! Suc 0 = Some ((sample_case EvalModeTrace [] None)\<lparr>EvalID := ''case-2''\<rparr>)"
    by (simp_all add: sample_cases_def)
  have serial: "statuses (serialResults (inferEvalCasesSerial sample_ext () sample_req sample_cases parallel_opts))
     = [Some EvalStatusPassed, Some EvalStatusFailed]"
    by (simp add: statuses_def serialResults_def inferenceEvalCase_def inferenceEvalCase_body_def
        runBeforeInferenceCaseCallbacks_def RunBeforeInferenceCase_def
        runAfterInferenceCaseCallbacks_def RunAfterInferenceCase_def
        newFailedInferenceResult_def Let_def parallel_opts_def sample_opts_def sample_cases_def
        sample_case_def EvalModeTrace_def)
  have parallel: "statuses (parallelResults
         (inferEvalCasesParallel sample_ext sample_service () sample_req sample_cases parallel_opts []
            [Submit (Some ''pool closed''), Submit (Some ''pool closed'')]))
     = [Some EvalStatusFailed, Some EvalStatusFailed]"
    unfolding inferEvalCasesParallel_def sample_pool len
    by (simp add: statuses_def parallelResults_def initBatch_def submitStep_def poolGet_def Let_def
          len c0 c1 parallel_supplier newFailedInferenceResult_def numeral_2_eq_2)
  show ?thesis
    using serial parallel by (intro conjI)
qed

section \<open>Rejected submissions\<close>

text \<open>
  Claim C5. In any state a run of the parallel strategy reaches, when the pool rejects
  the submission of case i with an error: the step of the loop succeeds, writes into
  slot i the failed result whose message wraps the rejection error, leaves the counter
  of the wait group where it was (one \<open>Add\<close>, one \<open>Done\<close>, the only \<open>Done\<close> for case i),
  puts no task in flight, and returns the parameter, reset, to the pool. From there the
  batch can be run to its return for any answers to the remaining submissions, and
  whatever happens next slot i keeps that result, case i has been signalled once, and
  the pool holds reset parameters only.
\<close>

theorem rejected_submission_settles_the_case:
  assumes "exec ext ctx req evalCases opts sched0 (initBatch (length evalCases) paramPool) = Inr st"
    and "poolReset paramPool"
    and "SessionIDSupplier opts = Some supplier"
    and "list_all (\<lambda>c. c \<noteq> None) evalCases"
    and "b_next st = i" and "i < length evalCases" and "evalCases ! i = Some c"
  shows "\<exists>st'. step ext ctx req evalCases opts (Submit (Some err)) st = Inr st'
     \<and> b_results st' = list_update (b_results st) i
           (Some (newFailedInferenceResult
              (newInferenceResult (InferenceRequest.AppName req) (InferenceRequest.EvalSetID req)
                 (supplier ctx) c)
              (''submit inference task for eval case '' @ EvalID c @ '': '' @ err)))
     \<and> b_wg st' = b_wg st
     \<and> b_done st' = b_done st @ [i]
     \<and> count_list (b_done st') i = 1
     \<and> b_inflight st' = b_inflight st
     \<and> b_paramPool st' = snd (poolGet (b_paramPool st)) @ [reset (taskParam ctx req evalCases opts i)]
     \<and> reset (taskParam ctx req evalCases opts i) = newParam
     \<and> b_next st' = i + 1
     \<and> (\<forall>as. i + 1 + length as = length evalCases \<longrightarrow>
            (\<exists>sched st2. answers sched = as
               \<and> exec ext ctx req evalCases opts sched st' = Inr st2
               \<and> b_next st2 = length evalCases \<and> b_wg st2 = 0))
     \<and> (\<forall>sched st2. exec ext ctx req evalCases opts sched st' = Inr st2 \<longrightarrow>
            b_results st2 ! i
              = Some (newFailedInferenceResult
                  (newInferenceResult (InferenceRequest.AppName req) (InferenceRequest.EvalSetID req)
                     (supplier ctx) c)
                  (''submit inference task for eval case '' @ EvalID c @ '': '' @ err))
            \<and> count_list (b_done st2) i = 1
            \<and> poolReset (b_paramPool st2))"
proof -
  let ?failed = "Some (newFailedInferenceResult
              (newInferenceResult (InferenceRequest.AppName req) (InferenceRequest.EvalSetID req)
                 (supplier ctx) c)
              (''submit inference task for eval case '' @ EvalID c @ '': '' @ err))"
  note reach = assms(1) and sup = assms(3) and cases = assms(4) and i = assms(5) and lt = assms(6)
    and c = assms(7)
  have inv: "batchInv ext ctx req evalCases opts st"
    using batchInv_exec [OF batchInv_init reach] .
  have pool: "poolReset (b_paramPool st)"
    using poolReset_exec [OF batchInv_init _ reach] assms(2) by (simp add: initBatch_def)
  have wg: "0 \<le> b_wg st" and len: "length (b_results st) = length evalCases"
    and invoked: "length (b_invoked st) = i"
    using inv i by (simp_all add: batchInv_def)
  define st' where "st' = st\<lparr>b_wg := b_wg st,
              b_invoked := b_invoked st @ [Some err],
              b_done := b_done st @ [b_next st],
              b_results := list_update (b_results st) (b_next st) ?failed,
              b_paramPool := snd (poolGet (b_paramPool st)) @ [newParam],
              b_next := b_next st + 1\<rparr>"
  have step: "step ext ctx req evalCases opts (Submit (Some err)) st = Inr st'"
    using submitStep_reject [OF lt [folded i] wg sup c [folded i] len, of ctx req err]
    by (simp add: st'_def)
  have inv': "batchInv ext ctx req evalCases opts st'"
    using batchInv_step [OF inv step] .
  have pool': "poolReset (b_paramPool st')"
    using poolReset_step [OF inv pool step] .
  have settled': "settled st' i"
    using inv by (auto simp: st'_def settled_def inflightIdx_def batchInv_def i)
  have once: "count_list (b_done st') i = 1"
    using inv' settled' by (simp add: batchInv_def)
  have later: "b_results st2 ! i = ?failed \<and> count_list (b_done st2) i = 1 \<and> poolReset (b_paramPool st2)"
    if run: "exec ext ctx req evalCases opts sched st' = Inr st2" for sched st2
  proof -
    have inv2: "batchInv ext ctx req evalCases opts st2"
      using batchInv_exec [OF inv' run] .
    have "b_invoked st2 = (b_invoked st @ [Some err]) @ answers sched"
      using exec_invoked [OF run] by (simp add: st'_def)
    then have answer: "b_invoked st2 ! i = Some err" and next2: "i < b_next st2"
      using invoked inv2 by (simp_all add: nth_append batchInv_def)
    have "i \<notin> inflightIdx st2"
      using inv2 answer by (auto simp: batchInv_def inflightIdx_def)
    with next2 have settled2: "settled st2 i"
      by (simp add: settled_def)
    have "b_results st2 ! i = slotFor ext ctx req opts (evalCases ! i) (b_invoked st2 ! i)"
      using inv2 settled2 lt by (simp add: batchInv_def)
    then have "b_results st2 ! i = ?failed"
      by (simp add: answer slotFor_def sup c)
    moreover have "count_list (b_done st2) i = 1"
      using inv2 settled2 by (simp add: batchInv_def)
    moreover have "poolReset (b_paramPool st2)"
      using poolReset_exec [OF inv' pool' run] .
    ultimately show ?thesis by blast
  qed
  have goes_on: "\<exists>sched st2. answers sched = as
               \<and> exec ext ctx req evalCases opts sched st' = Inr st2
               \<and> b_next st2 = length evalCases \<and> b_wg st2 = 0"
    if "i + 1 + length as = length evalCases" for as
  proof -
    have "b_next st' + length as = length evalCases"
      using that by (simp add: st'_def i)
    from complete [OF inv' sup cases this] show ?thesis .
  qed
  have fields: "b_results st' = list_update (b_results st) i ?failed"
    "b_wg st' = b_wg st" "b_done st' = b_done st @ [i]" "b_inflight st' = b_inflight st"
    "b_paramPool st' = snd (poolGet (b_paramPool st)) @ [reset (taskParam ctx req evalCases opts i)]"
    "reset (taskParam ctx req evalCases opts i) = newParam" "b_next st' = i + 1"
    by (simp_all add: st'_def i)
  show ?thesis
    using step fields once later goes_on by blast
qed


theorem rejected_submission_settles_the_case_witness:
  "\<exists>st st'.
     exec sample_ext () sample_req sample_cases parallel_opts [Submit None] (initBatch 2 []) = Inr st
     \<and> step sample_ext () sample_req sample_cases parallel_opts (Submit (Some ''pool closed'')) st = Inr st'
     \<and> statuses (b_results st') = [None, Some EvalStatusFailed]
     \<and> map (map_option ErrorMessage) (b_results st')
          = [None, Some ''submit inference task for eval case case-2: pool closed'']
     \<and> b_wg st = 1 \<and> b_wg st' = 1
     \<and> b_done st' = [1]
     \<and> b_paramPool st' = [newParam]
     \<and> (\<exists>sched st2. answers sched = []
            \<and> exec sample_ext () sample_req sample_cases parallel_opts sched st' = Inr st2
            \<and> b_next st2 = 2 \<and> b_wg st2 = 0)"
proof -
  have len: "length sample_cases = 2"
    by (simp add: sample_cases_def)
  define st where "st = (initBatch 2 [] :: unit batch)
       \<lparr>b_wg := 1, b_paramPool := [], b_invoked := [None],
         b_inflight := [taskParam () sample_req sample_cases parallel_opts 0], b_next := 1\<rparr>"
  have reach: "exec sample_ext () sample_req sample_cases parallel_opts [Submit None]
                 (initBatch (length sample_cases) []) = Inr st"
    by (simp add: len st_def initBatch_def submitStep_def poolGet_def Let_def taskParam_def)
  have pool0: "poolReset ([] :: unit evalCaseInferenceParam list)"
    by (simp add: poolReset_def)
  have i: "b_next st = 1" "(1::nat) < length sample_cases"
    "sample_cases ! 1 = Some ((sample_case EvalModeTrace [] None)\<lparr>EvalID := ''case-2''\<rparr>)"
    by (simp_all add: st_def len sample_cases_def)
  from rejected_submission_settles_the_case
         [OF reach pool0 parallel_supplier sample_cases_nonnil i, of "''pool closed''"]
  obtain st' where
    step: "step sample_ext () sample_req sample_cases parallel_opts (Submit (Some ''pool closed'')) st = Inr st'"
    and results: "b_results st' = list_update (b_results st) 1
           (Some (newFailedInferenceResult
              (newInferenceResult (InferenceRequest.AppName sample_req) (InferenceRequest.EvalSetID sample_req)
                 ''session'' ((sample_case EvalModeTrace [] None)\<lparr>EvalID := ''case-2''\<rparr>))
              (''submit inference task for eval case ''
                 @ EvalID ((sample_case EvalModeTrace [] None)\<lparr>EvalID := ''case-2''\<rparr>)
                 @ '': '' @ ''pool closed'')))"
    and wg: "b_wg st' = b_wg st" and done1: "b_done st' = b_done st @ [1]"
    and pool: "b_paramPool st' = snd (poolGet (b_paramPool st))
                 @ [reset (taskParam () sample_req sample_cases parallel_opts 1)]"
    and rst: "reset (taskParam () sample_req sample_cases parallel_opts 1) = (newParam :: unit evalCaseInferenceParam)"
    and goes_on: "\<forall>as. 1 + 1 + length as = length sample_cases \<longrightarrow>
            (\<exists>sched st2. answers sched = as
               \<and> exec sample_ext () sample_req sample_cases parallel_opts sched st' = Inr st2
               \<and> b_next st2 = length sample_cases \<and> b_wg st2 = 0)"
    by blast
  have a: "statuses (b_results st') = [None, Some EvalStatusFailed]"
    and b: "map (map_option ErrorMessage) (b_results st')
          = [None, Some ''submit inference task for eval case case-2: pool closed'']"
    by (simp_all add: results statuses_def st_def initBatch_def newFailedInferenceResult_def
          numeral_2_eq_2)
  have c: "b_wg st = 1" "b_wg st' = 1" "b_done st' = [1]" "b_paramPool st' = [newParam]"
    by (simp_all add: wg done1 pool rst st_def initBatch_def poolGet_def)
  have d: "\<exists>sched st2. answers sched = []
            \<and> exec sample_ext () sample_req sample_cases parallel_opts sched st' = Inr st2
            \<and> b_next st2 = 2 \<and> b_wg st2 = 0"
    using goes_on len by simp
  have reach2: "exec sample_ext () sample_req sample_cases parallel_opts [Submit None] (initBatch 2 []) = Inr st"
    using reach unfolding len .
  have "exec sample_ext () sample_req sample_cases parallel_opts [Submit None] (initBatch 2 []) = Inr st
     \<and> step sample_ext () sample_req sample_cases parallel_opts (Submit (Some ''pool closed'')) st = Inr st'
     \<and> statuses (b_results st') = [None, Some EvalStatusFailed]
     \<and> map (map_option ErrorMessage) (b_results st')
          = [None, Some ''submit inference task for eval case case-2: pool closed'']
     \<and> b_wg st = 1 \<and> b_wg st' = 1
     \<and> b_done st' = [1]
     \<and> b_paramPool st' = [newParam]
     \<and> (\<exists>sched st2. answers sched = []
            \<and> exec sample_ext () sample_req sample_cases parallel_opts sched st' = Inr st2
            \<and> b_next st2 = 2 \<and> b_wg st2 = 0)"
    using reach2 step a b c d by (intro conjI)
  then show ?thesis
    by (intro exI)
qed

section \<open>Option resolution\<close>

lemma applyOptions_snoc:
  "applyOptions callOpts (opt @ [o1]) = o1 (applyOptions callOpts opt)"
  by (induction opt arbitrary: callOpts) simp_all

lemma Inference_resolve_fails:
  assumes "validateInferenceRequest req = None"
    and "resolveInferenceOptions ext s opt = (s1, Inl err)"
  shows "Inference ext s ctx req opt paramPool sched = Inr (s1, None, Some err, [])"
proof -
  obtain req0 where "req = Some req0"
    using assms(1) by (cases req) (simp_all add: validateInferenceRequest_def)
  with assms show ?thesis
    by (simp add: Inference_def)
qed

text \<open>
  Claim C8. The effective options are the defaults of the service with the mutators of
  the call applied in order, a later mutator after the earlier ones. Option resolution
  fails exactly when the effective options have a nil eval-set manager, a nil session-id
  supplier, or parallel inference enabled with a worker count of zero or less or with a
  worker pool whose construction failed; otherwise it returns the effective options.
  When it fails, \<open>Inference\<close> returns that error and processes no case.
\<close>

theorem option_resolution_fails_exactly_on_bad_configuration:
  assumes "callOpts = applyOptions (defaultInferenceOptions s) opt"
    and "bad = (EvalSetManager callOpts = None
                \<or> SessionIDSupplier callOpts = None
                \<or> (EvalCaseParallelInferenceEnabled callOpts
                    \<and> (EvalCaseParallelism callOpts \<le> 0
                        \<or> snd (snd (ensureEvalCaseInferencePool ext s (EvalCaseParallelism callOpts))) \<noteq> None)))"
  shows "((\<exists>err. snd (resolveInferenceOptions ext s opt) = Inl err) \<longleftrightarrow> bad)
       \<and> (\<not> bad \<longrightarrow> snd (resolveInferenceOptions ext s opt) = Inr callOpts)
       \<and> (\<forall>err. snd (resolveInferenceOptions ext s opt) = Inl err \<longrightarrow>
             (\<forall>ctx req paramPool sched. validateInferenceRequest req = None \<longrightarrow>
                Inference ext s ctx req opt paramPool sched
                  = Inr (fst (resolveInferenceOptions ext s opt), None, Some err, [])))
       \<and> applyOptions (defaultInferenceOptions s) (opt @ [o1])
           = o1 (applyOptions (defaultInferenceOptions s) opt)"
proof (intro conjI)
  show "(\<exists>err. snd (resolveInferenceOptions ext s opt) = Inl err) \<longleftrightarrow> bad"
    unfolding assms
    by (auto simp: resolveInferenceOptions_def Let_def split: prod.splits option.splits)
  show "\<not> bad \<longrightarrow> snd (resolveInferenceOptions ext s opt) = Inr callOpts"
    unfolding assms
    by (auto simp: resolveInferenceOptions_def Let_def split: prod.splits option.splits)
  show "\<forall>err. snd (resolveInferenceOptions ext s opt) = Inl err \<longrightarrow>
             (\<forall>ctx req paramPool sched. validateInferenceRequest req = None \<longrightarrow>
                Inference ext s ctx req opt paramPool sched
                  = Inr (fst (resolveInferenceOptions ext s opt), None, Some err, []))"
    using Inference_resolve_fails [of _ ext s opt "fst (resolveInferenceOptions ext s opt)"]
    by (metis prod.collapse)
  show "applyOptions (defaultInferenceOptions s) (opt @ [o1])
           = o1 (applyOptions (defaultInferenceOptions s) opt)"
    by (rule applyOptions_snoc)
qed


theorem option_resolution_fails_exactly_on_bad_configuration_witness:
  "snd (resolveInferenceOptions sample_ext sample_service [\<lambda>callOpts. callOpts\<lparr>SessionIDSupplier := None\<rparr>])
     = Inl ''session id supplier is nil''
   \<and> Inference sample_ext sample_service () (Some sample_req)
        [\<lambda>callOpts. callOpts\<lparr>SessionIDSupplier := None\<rparr>] [] []
     = Inr (sample_service, None, Some ''session id supplier is nil'', [])
   \<and> map_option (\<lambda>f. f ()) (SessionIDSupplier (applyOptions (defaultInferenceOptions sample_service)
         [\<lambda>callOpts. callOpts\<lparr>SessionIDSupplier := Some (\<lambda>ctx. ''default-session'')\<rparr>,
          \<lambda>callOpts. callOpts\<lparr>SessionIDSupplier := Some (\<lambda>ctx. ''call-session'')\<rparr>]))
     = Some ''call-session''"
proof -
  let ?clear = "\<lambda>callOpts :: unit Options. callOpts\<lparr>SessionIDSupplier := None\<rparr>"
  let ?callOpts = "applyOptions (defaultInferenceOptions sample_service) [?clear]"
  let ?bad = "EvalSetManager ?callOpts = None
                \<or> SessionIDSupplier ?callOpts = None
                \<or> (EvalCaseParallelInferenceEnabled ?callOpts
                    \<and> (EvalCaseParallelism ?callOpts \<le> 0
                        \<or> snd (snd (ensureEvalCaseInferencePool sample_ext sample_service
                                       (EvalCaseParallelism ?callOpts))) \<noteq> None))"
  note inst = option_resolution_fails_exactly_on_bad_configuration
    [of ?callOpts sample_service "[?clear]" ?bad sample_ext
        "\<lambda>callOpts. callOpts\<lparr>SessionIDSupplier := Some (\<lambda>ctx. ''call-session'')\<rparr>",
     OF refl refl]
  have bad: ?bad
    by simp
  have resolved: "resolveInferenceOptions sample_ext sample_service [?clear]
      = (sample_service, Inl ''session id supplier is nil'')"
    by (simp add: resolveInferenceOptions_def defaultInferenceOptions_def sample_service_def Let_def)
  have valid: "validateInferenceRequest (Some sample_req) = None"
    by (simp add: validateInferenceRequest_def sample_req_def)
  have "Inference sample_ext sample_service () (Some sample_req) [?clear] [] []
     = Inr (sample_service, None, Some ''session id supplier is nil'', [])"
    using inst resolved valid by simp
  moreover have "map_option (\<lambda>f. f ()) (SessionIDSupplier (applyOptions (defaultInferenceOptions sample_service)
         [\<lambda>callOpts. callOpts\<lparr>SessionIDSupplier := Some (\<lambda>ctx. ''default-session'')\<rparr>,
          \<lambda>callOpts. callOpts\<lparr>SessionIDSupplier := Some (\<lambda>ctx. ''call-session'')\<rparr>]))
     = Some ''call-session''"
    by simp
  ultimately show ?thesis
    using resolved by simp
qed

section \<open>Failures recorded on the results\<close>










lemma ensure_again:
  assumes "ensureEvalCaseInferencePool ext s n = (s1, pool, err)"
  shows "ensureEvalCaseInferencePool ext s1 m = (s1, pool, err)"
  using assms
  by (auto simp: ensureEvalCaseInferencePool_def Let_def split: if_splits sum.splits)

lemma ensure_pool:
  assumes "ensureEvalCaseInferencePool ext s n = (s1, pool, None)" and "poolMemoOK s"
  shows "pool \<noteq> None"
proof
  assume "pool = None"
  with assms show False
    by (auto simp: ensureEvalCaseInferencePool_def poolMemoOK_def Let_def split: if_splits sum.splits)
qed

lemma resolve_ok:
  assumes "resolveInferenceOptions ext s opt = (s1, Inr callOpts)" and "poolMemoOK s"
  shows "EvalSetManager callOpts \<noteq> None \<and> SessionIDSupplier callOpts \<noteq> None
       \<and> (EvalCaseParallelInferenceEnabled callOpts \<longrightarrow>
            (\<exists>pool. ensureEvalCaseInferencePool ext s1 (EvalCaseParallelism callOpts) = (s1, Some pool, None)))"
proof -
  let ?callOpts = "applyOptions (defaultInferenceOptions s) opt"
  have mgr: "EvalSetManager ?callOpts \<noteq> None" and sup: "SessionIDSupplier ?callOpts \<noteq> None"
    using assms(1) by (auto simp: resolveInferenceOptions_def Let_def split: if_splits)
  have same: "callOpts = ?callOpts"
    using assms(1) mgr sup
    by (auto simp: resolveInferenceOptions_def Let_def split: if_splits prod.splits option.splits)
  have "\<exists>pool. ensureEvalCaseInferencePool ext s1 (EvalCaseParallelism callOpts) = (s1, Some pool, None)"
    if par: "EvalCaseParallelInferenceEnabled callOpts"
  proof -
    obtain pool where first: "ensureEvalCaseInferencePool ext s (EvalCaseParallelism ?callOpts) = (s1, pool, None)"
      using assms(1) mgr sup par unfolding same
      by (auto simp: resolveInferenceOptions_def Let_def split: if_splits prod.splits option.splits)
    obtain p where "pool = Some p"
      using ensure_pool [OF first assms(2)] by auto
    with ensure_again [OF first] show ?thesis
      unfolding same by blast
  qed
  with mgr sup same show ?thesis by simp
qed

lemma load_nonnil:
  assumes "loadInferenceEvalCases ctx req mgr = Inr evalCases"
  shows "list_all (\<lambda>c. c \<noteq> None) evalCases"
  using assms
  by (auto simp: loadInferenceEvalCases_def list_all_iff split: sum.splits if_splits)



section \<open>The errors of the batch\<close>




lemma sample_memo: "poolMemoOK sample_service"
  by (simp add: poolMemoOK_def sample_service_def)




section \<open>Result order of a parallel batch\<close>

lemma Inference_resolved:
  assumes "validateInferenceRequest (Some req0) = None"
    and "resolveInferenceOptions ext s0 opt = (s, Inr opts)"
    and "runBeforeInferenceSetCallbacks ctx0 (Callbacks opts) req0 = (ctx, req, None)"
  shows "Inference ext s0 ctx0 (Some req0) opt paramPool sched =
     (case Inference_body ext s ctx req opts paramPool sched of
        Inl f \<Rightarrow> Inl f
      | Inr (s2, results, err, log) \<Rightarrow>
          (case runAfterInferenceSetCallbacks ctx (Callbacks opts) req results err (time_Now ext) of
             Some afterErr \<Rightarrow> Inr (s2, None, Some afterErr, log)
           | None \<Rightarrow> Inr (s2, results, err, log)))"
  using assms by (simp add: Inference_def Let_def)

lemma Inference_body_parallel:
  assumes "EvalCaseParallelInferenceEnabled opts"
    and "EvalSetManager opts = Some mgr"
    and "loadInferenceEvalCases ctx req mgr = Inr evalCases"
    and "evalCases \<noteq> []"
  shows "Inference_body ext s ctx req opts paramPool sched =
     (case inferEvalCasesParallel ext s ctx req evalCases opts paramPool sched of
        Inl f \<Rightarrow> Inl f
      | Inr (s', results, err, st) \<Rightarrow>
          (case err of
             Some e \<Rightarrow> Inr (s', None, Some (''infer eval cases: '' @ e), b_log st)
           | None \<Rightarrow> Inr (s', results, None, b_log st)))"
  using assms
  by (simp add: Inference_body_def inferEvalCases_def split: sum.splits prod.splits option.splits)

lemma Inference_parallel_results:
  assumes valid: "validateInferenceRequest (Some req0) = None"
    and res: "resolveInferenceOptions ext s0 opt = (s, Inr opts)"
    and par: "EvalCaseParallelInferenceEnabled opts"
    and before: "runBeforeInferenceSetCallbacks ctx0 (Callbacks opts) req0 = (ctx, req, None)"
    and mgr: "EvalSetManager opts = Some mgr"
    and load: "loadInferenceEvalCases ctx req mgr = Inr evalCases"
    and run: "Inference ext s0 ctx0 (Some req0) opt paramPool sched = Inr (s', Some rs, None, log)"
  shows "length rs = length evalCases
       \<and> (\<forall>i < length evalCases.
             rs ! i \<noteq> None \<and> rs ! i = slotFor ext ctx req opts (evalCases ! i) (answers sched ! i))"
proof -
  have body: "Inference_body ext s ctx req opts paramPool sched = Inr (s', Some rs, None, log)"
    using run unfolding Inference_resolved [OF valid res before]
    by (auto split: sum.splits prod.splits option.splits)
  show ?thesis
  proof (cases "evalCases = []")
    case True
    with body mgr load show ?thesis
      by (simp add: Inference_body_def)
  next
    case False
    from body obtain st where
      "inferEvalCasesParallel ext s ctx req evalCases opts paramPool sched = Inr (s', Some rs, None, st)"
      unfolding Inference_body_parallel [OF par mgr load False]
      by (auto split: sum.splits prod.splits option.splits)
    then show ?thesis
      by (rule parallel_run)
  qed
qed


text \<open>
  Claim C1. Take a call of \<open>Inference\<close> whose options resolve with parallel inference
  enabled, whose before-batch callbacks return no error and whose case source gives N
  cases, and any answers of the pool to the N submissions. The parallel strategy has a
  run to its return; every run that returns, whatever the order in which the workers
  finish, gives a results array of length N whose slot i is non-nil and holds the
  result of case i; the same holds of every results array \<open>Inference\<close> returns; and
  \<open>Inference\<close> does return one when the after-batch callbacks return no error.
\<close>

theorem parallel_results_in_case_order:
  assumes "poolMemoOK s0"
    and "validateInferenceRequest (Some req0) = None"
    and "resolveInferenceOptions ext s0 opt = (s, Inr opts)"
    and "EvalCaseParallelInferenceEnabled opts"
    and "runBeforeInferenceSetCallbacks ctx0 (Callbacks opts) req0 = (ctx, req, None)"
    and "EvalSetManager opts = Some mgr"
    and "loadInferenceEvalCases ctx req mgr = Inr evalCases"
    and "length as = length evalCases"
  shows "(\<exists>sched st. answers sched = as
            \<and> inferEvalCasesParallel ext s ctx req evalCases opts paramPool sched
                = Inr (s, Some (b_results st), None, st))
       \<and> (\<forall>sched s' rs st.
             inferEvalCasesParallel ext s ctx req evalCases opts paramPool sched = Inr (s', Some rs, None, st)
             \<and> answers sched = as
             \<longrightarrow> length rs = length evalCases
                 \<and> (\<forall>i < length evalCases.
                       rs ! i \<noteq> None
                       \<and> rs ! i = slotFor ext ctx req opts (evalCases ! i) (as ! i)))
       \<and> (\<forall>sched s' rs log.
             Inference ext s0 ctx0 (Some req0) opt paramPool sched = Inr (s', Some rs, None, log)
             \<and> answers sched = as
             \<longrightarrow> length rs = length evalCases
                 \<and> (\<forall>i < length evalCases.
                       rs ! i \<noteq> None
                       \<and> rs ! i = slotFor ext ctx req opts (evalCases ! i) (as ! i)))
       \<and> ((\<forall>results err. runAfterInferenceSetCallbacks ctx (Callbacks opts) req results err (time_Now ext) = None)
            \<longrightarrow> (\<exists>sched s' rs log. answers sched = as
                   \<and> Inference ext s0 ctx0 (Some req0) opt paramPool sched = Inr (s', Some rs, None, log)))"
proof -
  note ok = resolve_ok [OF assms(3) assms(1)]
  obtain supplier where sup: "SessionIDSupplier opts = Some supplier"
    using ok by auto
  obtain pool where pool: "ensureEvalCaseInferencePool ext s (EvalCaseParallelism opts) = (s, Some pool, None)"
    using ok assms(4) by auto
  note cases = load_nonnil [OF assms(7)]
  obtain sched0 st0 where sched0: "answers sched0 = as"
    and run0: "inferEvalCasesParallel ext s ctx req evalCases opts paramPool sched0
                = Inr (s, Some (b_results st0), None, st0)"
    using parallel_returns [OF sup cases pool assms(8)] by blast
  have first: "\<exists>sched st. answers sched = as
            \<and> inferEvalCasesParallel ext s ctx req evalCases opts paramPool sched
                = Inr (s, Some (b_results st), None, st)"
    using sched0 run0 by blast
  have second: "length rs = length evalCases
                 \<and> (\<forall>i < length evalCases.
                       rs ! i \<noteq> None
                       \<and> rs ! i = slotFor ext ctx req opts (evalCases ! i) (as ! i))"
    if "inferEvalCasesParallel ext s ctx req evalCases opts paramPool sched = Inr (s', Some rs, None, st)
             \<and> answers sched = as" for sched s' rs st
    by (rule parallel_run [OF conjunct1 [OF that], unfolded conjunct2 [OF that]])
  have third: "length rs = length evalCases
                 \<and> (\<forall>i < length evalCases.
                       rs ! i \<noteq> None
                       \<and> rs ! i = slotFor ext ctx req opts (evalCases ! i) (as ! i))"
    if "Inference ext s0 ctx0 (Some req0) opt paramPool sched = Inr (s', Some rs, None, log)
             \<and> answers sched = as" for sched s' rs log
    by (rule Inference_parallel_results
          [OF assms(2) assms(3) assms(4) assms(5) assms(6) assms(7) conjunct1 [OF that],
           unfolded conjunct2 [OF that]])
  have fourth: "\<exists>sched s' rs log. answers sched = as
                   \<and> Inference ext s0 ctx0 (Some req0) opt paramPool sched = Inr (s', Some rs, None, log)"
    if quiet: "\<forall>results err. runAfterInferenceSetCallbacks ctx (Callbacks opts) req results err (time_Now ext) = None"
  proof (cases "evalCases = []")
    case True
    then have "as = []"
      using assms(8) by simp
    moreover have "Inference ext s0 ctx0 (Some req0) opt paramPool [] = Inr (s, Some [], None, [])"
      unfolding Inference_resolved [OF assms(2) assms(3) assms(5)]
      using True assms(6) assms(7) quiet by (simp add: Inference_body_def)
    ultimately have "answers [] = as
        \<and> Inference ext s0 ctx0 (Some req0) opt paramPool [] = Inr (s, Some [], None, [])"
      by simp
    then show ?thesis by blast
  next
    case False
    have "Inference ext s0 ctx0 (Some req0) opt paramPool sched0
            = Inr (s, Some (b_results st0), None, b_log st0)"
      unfolding Inference_resolved [OF assms(2) assms(3) assms(5)]
        Inference_body_parallel [OF assms(4) assms(6) assms(7) False] run0
      using quiet by simp
    with sched0 show ?thesis by blast
  qed
  show ?thesis
    using first second third fourth by blast
qed


lemma sample_resolved:
  "resolveInferenceOptions sample_ext sample_service [enableParallel]
     = (sample_service\<lparr>evalCaseInferencePoolOnce := True, evalCaseInferencePool := Some (PoolWithFunc 2)\<rparr>,
        Inr parallel_opts)"
  by (simp add: resolveInferenceOptions_def ensureEvalCaseInferencePool_def
        createEvalCaseInferencePool_def defaultInferenceOptions_def enableParallel_def
        parallel_opts_def sample_opts_def sample_service_def sample_ext_def Let_def)

lemma sample_valid: "validateInferenceRequest (Some sample_req) = None"
  by (simp add: validateInferenceRequest_def sample_req_def)

lemma sample_before_set:
  "runBeforeInferenceSetCallbacks () (Callbacks parallel_opts) sample_req = ((), sample_req, None)"
  by (simp add: runBeforeInferenceSetCallbacks_def RunBeforeInferenceSet_def parallel_opts_def
        sample_opts_def)

lemma sample_after_set:
  "runAfterInferenceSetCallbacks () (Callbacks parallel_opts) sample_req results err t = None"
  by (simp add: runAfterInferenceSetCallbacks_def RunAfterInferenceSet_def parallel_opts_def
        sample_opts_def)

lemma sample_load: "loadInferenceEvalCases () sample_req sample_manager = Inr sample_cases"
  by (simp add: loadInferenceEvalCases_def sample_manager_def sample_req_def sample_cases_def)

lemma sample_parallel_enabled:
  "EvalCaseParallelInferenceEnabled parallel_opts" "EvalSetManager parallel_opts = Some sample_manager"
  by (simp_all add: parallel_opts_def sample_opts_def)

theorem parallel_results_in_case_order_witness:
  "(\<exists>sched s' rs log. answers sched = [None, None]
      \<and> Inference sample_ext sample_service () (Some sample_req) [enableParallel] [] sched
          = Inr (s', Some rs, None, log))
   \<and> map_option statuses (batchResults
        (Inference sample_ext sample_service () (Some sample_req) [enableParallel] []
           [Submit None, Submit None, Finish 1, Finish 0]))
       = Some [Some EvalStatusPassed, Some EvalStatusFailed]"
proof -
  let ?s = "sample_service\<lparr>evalCaseInferencePoolOnce := True,
                             evalCaseInferencePool := Some (PoolWithFunc 2)\<rparr>"
  let ?ooo = "[Submit None, Submit None, Finish 1, Finish 0]"
  have len: "length [None, None :: error option] = length sample_cases"
    by (simp add: sample_cases_def)
  note inst = parallel_results_in_case_order
    [OF sample_memo sample_valid sample_resolved sample_parallel_enabled(1) sample_before_set
        sample_parallel_enabled(2) sample_load len, of "[]"]
  have ensured: "ensureEvalCaseInferencePool sample_ext ?s (EvalCaseParallelism parallel_opts)
                   = (?s, Some (PoolWithFunc 2), None)"
    using ensure_again [OF sample_pool] .
  obtain st where par: "inferEvalCasesParallel sample_ext ?s () sample_req sample_cases parallel_opts [] ?ooo
        = Inr (?s, Some (b_results st), None, st)"
    using out_of_order_returns [OF ensured] by blast
  have nonempty: "sample_cases \<noteq> []"
    by (simp add: sample_cases_def)
  have run: "Inference sample_ext sample_service () (Some sample_req) [enableParallel] [] ?ooo
               = Inr (?s, Some (b_results st), None, b_log st)"
    unfolding Inference_resolved [OF sample_valid sample_resolved sample_before_set]
      Inference_body_parallel [OF sample_parallel_enabled sample_load nonempty] par
    by (simp add: sample_after_set)
  have ans: "answers ?ooo = [None, None]"
    by simp
  have slots: "length (b_results st) = length sample_cases
      \<and> (\<forall>i < length sample_cases.
            b_results st ! i \<noteq> None
            \<and> b_results st ! i
                = slotFor sample_ext () sample_req parallel_opts (sample_cases ! i) ([None, None] ! i))"
    using inst run ans by blast
  have two: "length sample_cases = 2"
    by (simp add: sample_cases_def)
  have "b_results st ! 0 = slotFor sample_ext () sample_req parallel_opts (sample_cases ! 0) None"
    and "b_results st ! 1 = slotFor sample_ext () sample_req parallel_opts (sample_cases ! 1) None"
    using slots two by auto
  moreover have "b_results st = [b_results st ! 0, b_results st ! 1]"
    using slots two by (intro list_of_two) simp
  ultimately have "b_results st =
      [resultOf (inferenceEvalCase sample_ext () sample_req (sample_cases ! 0) parallel_opts),
       resultOf (inferenceEvalCase sample_ext () sample_req (sample_cases ! 1) parallel_opts)]"
    by (simp add: slotFor_def)
  then have "statuses (b_results st) = [Some EvalStatusPassed, Some EvalStatusFailed]"
    using sample_case_results by simp
  then have "map_option statuses (batchResults
        (Inference sample_ext sample_service () (Some sample_req) [enableParallel] [] ?ooo))
       = Some [Some EvalStatusPassed, Some EvalStatusFailed]"
    unfolding run batchResults_def by simp
  moreover have "\<exists>sched s' rs log. answers sched = [None, None]
      \<and> Inference sample_ext sample_service () (Some sample_req) [enableParallel] [] sched
          = Inr (s', Some rs, None, log)"
    using inst sample_after_set by blast
  ultimately show ?thesis
    by (intro conjI)
qed

end
